theory Spec2Isabelle
  imports Main "HOL-Library.Word" "HOL-Library.Log_Nat" "HOL-Library.Monad_Syntax"
begin

unbundle bit_operations_syntax

section \<open>Machine model\<close>

text \<open>
  The two allocators of the repository (\<^verbatim>\<open>ffit.c\<close>, the first-fit arena, and
  \<^verbatim>\<open>buddy.c\<close>, the buddy arena with its optional emergency first-fit arena) are
  embedded for an LP64 little-endian target: \<^verbatim>\<open>uint8_t\<close>, \<^verbatim>\<open>uint32_t\<close> are 8 and
  32 bit words, \<^verbatim>\<open>uintptr_t\<close>, \<^verbatim>\<open>size_t\<close> and every pointer are 64 bit words, and
  \<^verbatim>\<open>NULL\<close> is the address 0.  All arithmetic wraps as in C.

  The memory is one store from addresses to bytes, shared by both arenas.  A
  \<^verbatim>\<open>uint32_t\<close> field is read and written as four consecutive bytes.  Dereferencing
  is plain access to the store (C leaves an access through \<^verbatim>\<open>NULL\<close> undefined).

  Return codes are C \<^verbatim>\<open>int\<close>s: \<open>0\<close> (OK), \<open>4\<close> (NOTFOUND), \<open>-1\<close> (INTERNAL).
  A call that does not return (a list walk that never ends, or a failed
  \<^verbatim>\<open>assert\<close>, which aborts the process) has the value \<open>None\<close>.
\<close>

type_synonym u8 = "8 word"
type_synonym u32 = "32 word"
type_synonym u64 = "64 word"
type_synonym memory = "u64 \<Rightarrow> u8"

definition NOBLOCK :: u32 where
  "NOBLOCK = 0xffffffff"

definition NOTFOUND :: int where
  "NOTFOUND = 4"

definition read32 :: "memory \<Rightarrow> u64 \<Rightarrow> u32" where
  "read32 m a =
     ucast (m a) OR push_bit 8 (ucast (m (a + 1)))
       OR push_bit 16 (ucast (m (a + 2))) OR push_bit 24 (ucast (m (a + 3)))"

definition write32 :: "memory \<Rightarrow> u64 \<Rightarrow> u32 \<Rightarrow> memory" where
  "write32 m a v =
     m(a := ucast v, a + 1 := ucast (drop_bit 8 v),
       a + 2 := ucast (drop_bit 16 v), a + 3 := ucast (drop_bit 24 v))"

text \<open>\<^verbatim>\<open>memset(p, c, n)\<close> and \<^verbatim>\<open>memcpy(dst, src, n)\<close> of the C library.\<close>

definition memset :: "memory \<Rightarrow> u64 \<Rightarrow> u8 \<Rightarrow> u64 \<Rightarrow> memory" where
  "memset m p c n = (\<lambda>a. if a - p < n then c else m a)"

definition memcpy :: "memory \<Rightarrow> u64 \<Rightarrow> u64 \<Rightarrow> u64 \<Rightarrow> memory" where
  "memcpy m dst src n = (\<lambda>a. if a - dst < n then m (src + (a - dst)) else m a)"

section \<open>The first-fit arena (ffit.c)\<close>

text \<open>
  \<^verbatim>\<open>ffit_heap_t\<close>.  The static helpers of \<^verbatim>\<open>ffit.c\<close> whose names \<^verbatim>\<open>buddy.c\<close> uses
  again carry the prefix \<open>ffit_\<close>; the fields carry the prefix \<open>f_\<close>.
\<close>

record ffit_heap_t =
  f_mh :: u64
  f_hs :: u64
  f_first :: u32
  f_last :: u32

definition MINSIZE_FF :: u32 where
  "MINSIZE_FF = 32"

definition ffit_block2ptr :: "u64 \<Rightarrow> u32 \<Rightarrow> u64" where
  "ffit_block2ptr mh add = (if add = NOBLOCK then 0 else ucast add + mh)"

definition ffit_ptr2block :: "u64 \<Rightarrow> u64 \<Rightarrow> u32" where
  "ffit_ptr2block mh ptr = (if ptr = 0 then NOBLOCK else ucast (ptr - mh))"

definition ffit_getsize :: "u32 \<Rightarrow> u32" where
  "ffit_getsize sz = drop_bit 1 sz"

definition setsize :: "u32 \<Rightarrow> u32" where
  "setsize sz = push_bit 1 sz"

definition gettag :: "u32 \<Rightarrow> u8" where
  "gettag sz = ucast (sz AND 1)"

text \<open>The fields of \<^verbatim>\<open>block_t\<close> at address \<open>b\<close>: \<^verbatim>\<open>sze\<close>, \<^verbatim>\<open>nxt\<close>, \<^verbatim>\<open>prv\<close>.\<close>

definition sze :: "memory \<Rightarrow> u64 \<Rightarrow> u32" where
  "sze m b = read32 m b"

definition nxt :: "memory \<Rightarrow> u64 \<Rightarrow> u32" where
  "nxt m b = read32 m (b + 4)"

definition prv :: "memory \<Rightarrow> u64 \<Rightarrow> u32" where
  "prv m b = read32 m (b + 8)"

definition set_sze :: "memory \<Rightarrow> u64 \<Rightarrow> u32 \<Rightarrow> memory" where
  "set_sze m b v = write32 m b v"

definition set_nxt :: "memory \<Rightarrow> u64 \<Rightarrow> u32 \<Rightarrow> memory" where
  "set_nxt m b v = write32 m (b + 4) v"

definition set_prv :: "memory \<Rightarrow> u64 \<Rightarrow> u32 \<Rightarrow> memory" where
  "set_prv m b v = write32 m (b + 8) v"

definition tag :: "memory \<Rightarrow> u64 \<Rightarrow> memory" where
  "tag m b =
     (let s = drop_bit 1 (sze m b);
          m1 = set_sze m b (sze m b OR 1)
      in m1(b + ucast s - 1 := 1))"

definition untag :: "memory \<Rightarrow> u64 \<Rightarrow> memory" where
  "untag m b =
     (let s = drop_bit 1 (sze m b);
          m1 = (if sze m b AND 1 = 1 then set_sze m b (0xffffffff AND (sze m b XOR 1)) else m)
      in m1(b + ucast s - 1 := 0))"

text \<open>\<^verbatim>\<open>tagged\<close> uses the logical \<^verbatim>\<open>&&\<close>: the byte counts as tagged when it is not 0.\<close>

definition tagged :: "memory \<Rightarrow> u64 \<Rightarrow> bool" where
  "tagged m w = ((if m w \<noteq> 0 \<and> (1 :: u8) \<noteq> 0 then (1 :: int) else 0) = 1)"

definition ffit_bremove :: "ffit_heap_t \<Rightarrow> memory \<Rightarrow> u64 \<Rightarrow> ffit_heap_t \<times> memory" where
  "ffit_bremove h m p =
     (let (h1, m1) =
            (if prv m p \<noteq> NOBLOCK
             then (h, set_nxt m (ffit_block2ptr (f_mh h) (prv m p)) (nxt m p))
             else (h\<lparr>f_first := nxt m p\<rparr>, m))
      in if nxt m1 p \<noteq> NOBLOCK
         then (h1, set_prv m1 (ffit_block2ptr (f_mh h1) (nxt m1 p)) (prv m1 p))
         else (h1\<lparr>f_last := prv m1 p\<rparr>, m1))"

text \<open>\<^verbatim>\<open>binsert(h, p, q)\<close>: insert \<open>q\<close> before \<open>p\<close>.\<close>

definition ffit_binsert :: "ffit_heap_t \<Rightarrow> memory \<Rightarrow> u64 \<Rightarrow> u64 \<Rightarrow> ffit_heap_t \<times> memory" where
  "ffit_binsert h m p q =
     (let (h1, m1) =
            (if prv m p \<noteq> NOBLOCK
             then (h, set_nxt m (ffit_block2ptr (f_mh h) (prv m p)) (ffit_ptr2block (f_mh h) q))
             else (h\<lparr>f_first := ffit_ptr2block (f_mh h) q\<rparr>, m));
          m2 = set_prv m1 q (prv m1 p);
          m3 = set_prv m2 p (ffit_ptr2block (f_mh h1) q);
          m4 = set_nxt m3 q (ffit_ptr2block (f_mh h1) p)
      in (h1, m4))"

text \<open>
  The loop of \<^verbatim>\<open>bfind\<close>: \<open>b\<close> is the current block, \<open>a\<close> its pseudo address.  The
  result is the block that ends at \<open>end\<close>, or \<^verbatim>\<open>NULL\<close>.
\<close>

partial_function (option) bfind_loop :: "ffit_heap_t \<Rightarrow> memory \<Rightarrow> u64 \<Rightarrow> u32 \<Rightarrow> u32 \<Rightarrow> u64 option" where
  "bfind_loop h m b a en =
     (if b = 0 then Some 0
      else if a + ffit_getsize (sze m b) = en then Some b
      else bfind_loop h m (ffit_block2ptr (f_mh h) (nxt m b)) (nxt m b) en)"

declare bfind_loop.simps [code]

definition bfind :: "ffit_heap_t \<Rightarrow> memory \<Rightarrow> u32 \<Rightarrow> u64 option" where
  "bfind h m en = bfind_loop h m (ffit_block2ptr (f_mh h) (f_first h)) (f_first h) en"

text \<open>The loop of \<^verbatim>\<open>binssort\<close>: \<open>p\<close> walks the avail list, \<open>s\<close> is the size of \<open>b\<close>.\<close>

partial_function (option) binssort_loop ::
    "ffit_heap_t \<Rightarrow> memory \<Rightarrow> u64 \<Rightarrow> u64 \<Rightarrow> u32 \<Rightarrow> (ffit_heap_t \<times> memory) option" where
  "binssort_loop h m b p s =
     (if ffit_getsize (sze m p) \<ge> s then Some (ffit_binsert h m p b)
      else if nxt m p = NOBLOCK
      then (let m1 = set_nxt m p (ffit_ptr2block (f_mh h) b);
                m2 = set_prv m1 b (ffit_ptr2block (f_mh h) p);
                m3 = set_nxt m2 b NOBLOCK
            in Some (h\<lparr>f_last := nxt m3 p\<rparr>, m3))
      else binssort_loop h m b (ffit_block2ptr (f_mh h) (nxt m p)) s)"

declare binssort_loop.simps [code]

definition binssort :: "ffit_heap_t \<Rightarrow> memory \<Rightarrow> u64 \<Rightarrow> (ffit_heap_t \<times> memory) option" where
  "binssort h m b =
     (if f_first h = NOBLOCK
      then (let h1 = h\<lparr>f_first := ffit_ptr2block (f_mh h) b\<rparr>;
                h2 = h1\<lparr>f_last := f_first h1\<rparr>;
                m1 = set_nxt m b NOBLOCK;
                m2 = set_prv m1 b NOBLOCK
            in Some (h2, m2))
      else binssort_loop h m b (ffit_block2ptr (f_mh h) (f_first h)) (ffit_getsize (sze m b)))"

definition breplace :: "ffit_heap_t \<Rightarrow> memory \<Rightarrow> u64 \<Rightarrow> u64 \<Rightarrow> (ffit_heap_t \<times> memory) option" where
  "breplace h m p q = (let (h1, m1) = ffit_bremove h m p in binssort h1 m1 q)"

text \<open>
  The loop of \<^verbatim>\<open>getblock\<close> (first fit): \<open>p\<close> walks the avail list; the result is the
  pseudo address of the block taken, or \<open>NOBLOCK\<close>.
\<close>

partial_function (option) ffit_getblock_loop ::
    "ffit_heap_t \<Rightarrow> memory \<Rightarrow> u64 \<Rightarrow> u32 \<Rightarrow> (u32 \<times> ffit_heap_t \<times> memory) option" where
  "ffit_getblock_loop h m p sz =
     (if p = 0 then Some (NOBLOCK, h, m)
      else let s = ffit_getsize (sze m p) in
        if s \<ge> sz then
          (case (if s > sz + MINSIZE_FF
                 then (let q = ffit_block2ptr (f_mh h) (ffit_ptr2block (f_mh h) p + sz);
                           m1 = set_sze m q (setsize (s - sz));
                           m2 = untag m1 q;
                           m3 = set_sze m2 p (setsize sz)
                       in breplace h m3 p q)
                 else (let m1 = set_sze m p (setsize (ffit_getsize (sze m p)))
                       in Some (ffit_bremove h m1 p)))
           of None \<Rightarrow> None
            | Some (h1, m1) \<Rightarrow> Some (ffit_ptr2block (f_mh h1) p, h1, tag m1 p))
        else ffit_getblock_loop h m (ffit_block2ptr (f_mh h) (nxt m p)) sz)"

declare ffit_getblock_loop.simps [code]

definition ffit_getblock :: "ffit_heap_t \<Rightarrow> memory \<Rightarrow> u32 \<Rightarrow> (u32 \<times> ffit_heap_t \<times> memory) option" where
  "ffit_getblock h m sz = ffit_getblock_loop h m (ffit_block2ptr (f_mh h) (f_first h)) sz"


definition ffit_freeblock :: "ffit_heap_t \<Rightarrow> memory \<Rightarrow> u32 \<Rightarrow> (int \<times> ffit_heap_t \<times> memory) option" where
  "ffit_freeblock h m add =
     (let b = ffit_block2ptr (f_mh h) add;
          s = ffit_getsize (sze m b);
          t = gettag (sze m b)
      in if t = 0 then Some (NOTFOUND, h, m)
         else
           (case (if add > 0 \<and> \<not> tagged m (ffit_block2ptr (f_mh h) (add - 1))
                  then (case bfind h m add of
                          None \<Rightarrow> None
                        | Some p \<Rightarrow>
                            if p = 0 then Some (- 1, b, h, m)
                            else (let m1 = set_sze m p (setsize (ffit_getsize (sze m p) + s));
                                      (h2, m2) = ffit_bremove h m1 p
                                  in Some (0, p, h2, m2)))
                  else Some (0, b, h, m))
            of None \<Rightarrow> None
             | Some (rc, b1, h1, m1) \<Rightarrow>
                 if rc = 0 then
                   (let q = ffit_block2ptr (f_mh h1) (add + s);
                        (h2, m2) =
                          (if ucast (add + s) < f_hs h1 \<and> gettag (sze m1 q) = 0
                           then (let ns = ffit_getsize (sze m1 q);
                                     m3 = set_sze m1 b1 (setsize (ffit_getsize (sze m1 b1) + ns))
                                 in ffit_bremove h1 m3 q)
                           else (h1, m1))
                    in (case binssort h2 (untag m2 b1) b1 of
                          None \<Rightarrow> None
                        | Some (h3, m3) \<Rightarrow> Some (rc, h3, m3)))
                 else Some (rc, h1, m1)))"

definition ffit_init :: "ffit_heap_t \<Rightarrow> memory \<Rightarrow> int \<times> ffit_heap_t \<times> memory" where
  "ffit_init h m =
     (let h1 = h\<lparr>f_first := 0\<rparr>;
          h2 = h1\<lparr>f_last := 0\<rparr>;
          b = f_mh h2
      in if f_hs h2 > 32
         then (let m1 = set_sze m b (setsize (ucast (f_hs h2)));
                   m2 = untag m1 b;
                   m3 = set_nxt m2 b NOBLOCK;
                   m4 = set_prv m3 b NOBLOCK
               in (0, h2, m4))
         else (- 1, h2, m))"

text \<open>
  The effective size of a request: \<^verbatim>\<open>(uint32_t)sz+5\<close>, at least \<^verbatim>\<open>MINSIZE\<close>.  The
  cast keeps the low 32 bits of \<open>sz\<close>.
\<close>

definition ffit_effsize :: "u64 \<Rightarrow> u32" where
  "ffit_effsize sz = (let s = ucast sz + 5 in if s < MINSIZE_FF then MINSIZE_FF else s)"

definition ffit_get_block :: "ffit_heap_t \<Rightarrow> memory \<Rightarrow> u64 \<Rightarrow> (u64 \<times> ffit_heap_t \<times> memory) option" where
  "ffit_get_block h m sz =
     (if sz > 0 then
        (let s = ffit_effsize sz
         in if ucast s < f_hs h
            then (case ffit_getblock h m s of
                    None \<Rightarrow> None
                  | Some (b, h1, m1) \<Rightarrow>
                      Some (if b \<noteq> NOBLOCK then ffit_block2ptr (f_mh h1) (b + 4) else 0, h1, m1))
            else Some (0, h, m))
      else Some (0, h, m))"

definition ffit_free_block :: "ffit_heap_t \<Rightarrow> memory \<Rightarrow> u64 \<Rightarrow> (int \<times> ffit_heap_t \<times> memory) option" where
  "ffit_free_block h m ptr =
     (if ptr - 4 \<ge> f_mh h \<and> ptr + 5 < f_mh h + f_hs h
      then ffit_freeblock h m (ffit_ptr2block (f_mh h) (ptr - 4))
      else Some (0, h, m))"

text \<open>The result of \<^verbatim>\<open>ffit_extend_block\<close> is the pointer returned and the final \<^verbatim>\<open>*rc\<close>.\<close>

definition ffit_extend_block ::
    "ffit_heap_t \<Rightarrow> memory \<Rightarrow> u64 \<Rightarrow> u64 \<Rightarrow> (u64 \<times> int \<times> ffit_heap_t \<times> memory) option" where
  "ffit_extend_block h m ptr sz =
     (if ptr = 0 then
        (case ffit_get_block h m sz of
           None \<Rightarrow> None
         | Some (ret, h1, m1) \<Rightarrow> Some (ret, 0, h1, m1))
      else if sz = 0 then
        (case ffit_free_block h m ptr of
           None \<Rightarrow> None
         | Some (rc, h1, m1) \<Rightarrow> Some (0, rc, h1, m1))
      else if ptr \<ge> f_mh h + f_hs h then Some (0, 0, h, m)
      else
        (let s = ffit_effsize sz
         in if ucast s < f_hs h then
              (let add = ffit_ptr2block (f_mh h) (ptr - 4);
                   b = ffit_block2ptr (f_mh h) add;
                   os = ffit_getsize (sze m b)
               in if os = s then Some (ptr, 0, h, m)
                  else
                    (case ffit_get_block h m (ucast s) of
                       None \<Rightarrow> None
                     | Some (ret, h1, m1) \<Rightarrow>
                         if ret \<noteq> 0 then
                           (let k = (if os > s then ucast sz else os - 5) :: u32;
                                m2 = memcpy m1 (ret + 4) (ptr + 4) (ucast k)
                            in (case ffit_free_block h1 m2 ptr of
                                  None \<Rightarrow> None
                                | Some (rc, h3, m3) \<Rightarrow> Some (ret, rc, h3, m3)))
                         else Some (ret, 0, h1, m1)))
            else Some (0, 0, h, m)))"


section \<open>The buddy arena (buddy.c)\<close>

text \<open>
  \<^verbatim>\<open>buddy_heap_t\<close>, its fields with the prefix \<open>b_\<close>.  The avail table and the size
  area are reached in the C code only through the arrays \<^verbatim>\<open>h->ah\<close> and \<^verbatim>\<open>h->sh\<close>,
  which \<^verbatim>\<open>buddy_init\<close> places behind the emergency heap; the fields \<open>b_ah\<close> and
  \<open>b_sh\<close> hold the contents of these two arrays, indexed like them.  The blocks of
  the main heap and of the emergency heap live in the byte store.  The pointers
  \<^verbatim>\<open>h->ah\<close> and \<^verbatim>\<open>h->sh\<close> themselves are the fields \<open>b_ahp\<close> and \<open>b_shp\<close>.  Size class
  exponents and list indices (\<^verbatim>\<open>uint8_t\<close> in C, at most 31) are natural numbers.
\<close>

record buddy_heap_t =
  b_mh :: u64
  b_hs :: u64
  b_e :: u8
  b_eh :: u64
  b_ahp :: u64
  b_shp :: u64
  b_ah :: "nat \<Rightarrow> u32"
  b_sh :: "nat \<Rightarrow> u8"
  b_msize :: u32
  b_asize :: u32
  b_ssize :: u32
  b_esize :: u32
  b_AMAX :: nat
  b_ffh :: ffit_heap_t

definition MINSIZE :: u32 where
  "MINSIZE = 8"

definition OK :: int where
  "OK = 0"

definition INTERNAL :: int where
  "INTERNAL = - 1"

definition block2ptr :: "buddy_heap_t \<Rightarrow> u32 \<Rightarrow> u64" where
  "block2ptr h add = (if add = NOBLOCK then 0 else ucast add + b_mh h)"

definition ptr2block :: "buddy_heap_t \<Rightarrow> u64 \<Rightarrow> u32" where
  "ptr2block h ptr = (if ptr = 0 then NOBLOCK else ucast (ptr - b_mh h))"

definition block2size :: "u32 \<Rightarrow> u32" where
  "block2size add = drop_bit 3 add"

text \<open>
  \<^verbatim>\<open>__builtin_clz\<close>: the number of leading zero bits of a 32 bit value (C leaves
  \<^verbatim>\<open>clz(0)\<close> undefined; here it is 32).
\<close>

definition clz :: "u32 \<Rightarrow> nat" where
  "clz n = 32 - floorlog 2 (unat n)"

definition buddy_log2 :: "u32 \<Rightarrow> nat" where
  "buddy_log2 n = unat ((31 :: u8) - of_nat (clz n))"

definition modpow2 :: "u32 \<Rightarrow> u32 \<Rightarrow> u32" where
  "modpow2 n d = n AND (d - 1)"

definition nextpow2 :: "u32 \<Rightarrow> u32" where
  "nextpow2 sz =
     (let s0 = sz - 1;
          s1 = s0 OR drop_bit 1 s0;
          s2 = s1 OR drop_bit 2 s1;
          s3 = s2 OR drop_bit 4 s2;
          s4 = s3 OR drop_bit 8 s3;
          s5 = s4 OR drop_bit 16 s4
      in s5 + 1)"

definition findbuddy :: "u32 \<Rightarrow> nat \<Rightarrow> u32" where
  "findbuddy block s =
     (let k = push_bit s (1 :: u32)
      in if block AND (push_bit 1 k - 1) = 0 then block + k else block - k)"

subsection \<open>Block size interface\<close>

text \<open>
  The index \<open>i\<close> is the \<^verbatim>\<open>uint32_t\<close> that \<^verbatim>\<open>block2size\<close> returns; \<^verbatim>\<open>c<<2\<close> and the
  shifts of \<^verbatim>\<open>h->sh[y]\<close> are computed in 32 bits (C's \<^verbatim>\<open>int\<close>) and stored back into
  a byte.
\<close>

text \<open>
  The caller hands over the region \<open>[mh, mh + hs)\<close>.  \<^verbatim>\<open>buddy_init\<close> computes the
  addresses of the avail table and of the size area and clears both with
  \<^verbatim>\<open>memset\<close>.  \<open>in_region h p n\<close>: the \<open>n\<close> bytes at \<open>p\<close> lie in the region.  A
  \<^verbatim>\<open>memset\<close> of an area that does not lie in the region writes to memory the caller
  never handed over; such a call has no result here (\<open>None\<close>).
\<close>

definition in_region :: "buddy_heap_t \<Rightarrow> u64 \<Rightarrow> u32 \<Rightarrow> bool" where
  "in_region h p n \<longleftrightarrow>
     unat (b_mh h) \<le> unat p \<and> unat p + unat n \<le> unat (b_mh h) + unat (b_hs h)"

text \<open>\<^verbatim>\<open>init_size\<close>: \<^verbatim>\<open>memset(h->sh, 0, h->ssize)\<close>.\<close>

definition init_size :: "buddy_heap_t \<Rightarrow> buddy_heap_t option" where
  "init_size h =
     (if in_region h (b_shp h) (b_ssize h)
      then Some (h\<lparr>b_sh := (\<lambda>i. if i < unat (b_ssize h) then 0 else b_sh h i)\<rparr>)
      else None)"

definition putsize :: "buddy_heap_t \<Rightarrow> u32 \<Rightarrow> u8 \<Rightarrow> buddy_heap_t" where
  "putsize h i c =
     (let p = i * 6;
          y = p div 8;
          b = modpow2 p 8;
          sh = b_sh h;
          sh1 = sh(unat y := sh (unat y) OR ucast (drop_bit (unat b) (push_bit 2 (ucast c :: u32))))
      in h\<lparr>b_sh := sh1(unat (y + 1) :=
                sh1 (unat (y + 1)) OR ucast (push_bit (unat (8 - b)) (push_bit 2 (ucast c :: u32))))\<rparr>)"

definition getsize :: "buddy_heap_t \<Rightarrow> u32 \<Rightarrow> u8" where
  "getsize h i =
     (let p = i * 6;
          y = p div 8;
          b = modpow2 p 8;
          sh = b_sh h;
          x0 = (ucast (push_bit (unat b) (ucast (sh (unat y)) :: u32)) :: u8);
          x = x0 OR ucast (drop_bit (unat (8 - b)) (ucast (sh (unat (y + 1))) :: u32))
      in drop_bit 2 x)"

definition erasesize :: "buddy_heap_t \<Rightarrow> u32 \<Rightarrow> buddy_heap_t" where
  "erasesize h i =
     (let p = i * 6;
          y = p div 8;
          b = modpow2 p 8;
          sh = b_sh h
      in if b = 0
         then h\<lparr>b_sh := sh(unat y := sh (unat y) AND ucast (drop_bit 6 (0xff :: u32)))\<rparr>
         else (let sh1 = sh(unat y := sh (unat y) AND ucast (push_bit (unat (8 - b)) (0xff :: u32)))
               in h\<lparr>b_sh := sh1(unat (y + 1) :=
                         sh1 (unat (y + 1)) AND ucast (drop_bit (unat (b - 2)) (0xff :: u32)))\<rparr>))"

subsection \<open>Block list interface\<close>

text \<open>The fields of \<^verbatim>\<open>block_list_t\<close> at address \<open>p\<close>: \<^verbatim>\<open>nxt\<close>, \<^verbatim>\<open>prv\<close>.\<close>

definition bl_nxt :: "memory \<Rightarrow> u64 \<Rightarrow> u32" where
  "bl_nxt m p = read32 m p"

definition bl_prv :: "memory \<Rightarrow> u64 \<Rightarrow> u32" where
  "bl_prv m p = read32 m (p + 4)"

definition set_bl_nxt :: "memory \<Rightarrow> u64 \<Rightarrow> u32 \<Rightarrow> memory" where
  "set_bl_nxt m p v = write32 m p v"

definition set_bl_prv :: "memory \<Rightarrow> u64 \<Rightarrow> u32 \<Rightarrow> memory" where
  "set_bl_prv m p v = write32 m (p + 4) v"

definition block_insert :: "buddy_heap_t \<Rightarrow> memory \<Rightarrow> u32 \<Rightarrow> u32 \<Rightarrow> memory" where
  "block_insert h m list add =
     (let tmp = block2ptr h add;
          m1 = set_bl_nxt m tmp list;
          m2 = set_bl_prv m1 tmp NOBLOCK
      in if list \<noteq> NOBLOCK then set_bl_prv m2 (block2ptr h list) add else m2)"

definition block_clean :: "buddy_heap_t \<Rightarrow> memory \<Rightarrow> u32 \<Rightarrow> memory" where
  "block_clean h m add = memset m (block2ptr h add) 0xff 8"

text \<open>
  The walk \<^verbatim>\<open>while(tmp != NULL && tmp->nxt != add) tmp = block2ptr(h, tmp->nxt)\<close>
  of \<^verbatim>\<open>block_remove\<close> and \<^verbatim>\<open>block_is_in\<close>; the result is the final \<open>tmp\<close>.
\<close>

partial_function (option) block_walk :: "buddy_heap_t \<Rightarrow> memory \<Rightarrow> u64 \<Rightarrow> u32 \<Rightarrow> u64 option" where
  "block_walk h m tmp add =
     (if tmp \<noteq> 0 \<and> bl_nxt m tmp \<noteq> add
      then block_walk h m (block2ptr h (bl_nxt m tmp)) add
      else Some tmp)"

declare block_walk.simps [code]

definition block_remove :: "buddy_heap_t \<Rightarrow> memory \<Rightarrow> u32 \<Rightarrow> u32 \<Rightarrow> (u32 \<times> memory) option" where
  "block_remove h m list add =
     (if list = add
      then (if list \<noteq> NOBLOCK
            then Some (bl_nxt m (block2ptr h list), block_clean h m list)
            else Some (list, m))
      else do {
        tmp \<leftarrow> block_walk h m (block2ptr h list) add;
        if tmp \<noteq> 0
        then (let node = block2ptr h (bl_nxt m tmp);
                  m1 = set_bl_nxt m tmp (bl_nxt m node);
                  m2 = (if bl_nxt m1 node \<noteq> NOBLOCK
                        then set_bl_prv m1 (block2ptr h (bl_nxt m1 node)) (bl_prv m1 node)
                        else m1)
              in Some (list, block_clean h m2 (ptr2block h node)))
        else Some (list, m)
      })"

definition block_is_in :: "buddy_heap_t \<Rightarrow> memory \<Rightarrow> u32 \<Rightarrow> u32 \<Rightarrow> bool option" where
  "block_is_in h m list add =
     (if list = add then Some True
      else do {
        tmp \<leftarrow> block_walk h m (block2ptr h list) add;
        Some (tmp \<noteq> 0)
      })"

subsection \<open>Avail lists\<close>

text \<open>\<^verbatim>\<open>binsert\<close> and \<^verbatim>\<open>bremove\<close> end with an \<^verbatim>\<open>assert\<close> on the new list head.\<close>

definition binsert :: "buddy_heap_t \<Rightarrow> memory \<Rightarrow> u32 \<Rightarrow> nat \<Rightarrow> (buddy_heap_t \<times> memory) option" where
  "binsert h m add sz =
     (let m1 = block_insert h m (b_ah h sz) add;
          h1 = h\<lparr>b_ah := (b_ah h)(sz := add)\<rparr>
      in if b_ah h1 sz < b_msize h1 \<or> b_ah h1 sz = NOBLOCK then Some (h1, m1) else None)"

definition bremove :: "buddy_heap_t \<Rightarrow> memory \<Rightarrow> u32 \<Rightarrow> nat \<Rightarrow> (buddy_heap_t \<times> memory) option" where
  "bremove h m add sz =
     do {
       (head, m1) \<leftarrow> block_remove h m (b_ah h sz) add;
       let h1 = h\<lparr>b_ah := (b_ah h)(sz := head)\<rparr>;
       if b_ah h1 sz < b_msize h1 \<or> b_ah h1 sz = NOBLOCK then Some (h1, m1) else None
     }"

definition bisin :: "buddy_heap_t \<Rightarrow> memory \<Rightarrow> u32 \<Rightarrow> nat \<Rightarrow> bool option" where
  "bisin h m add sz = block_is_in h m (b_ah h sz) add"

definition bsplit :: "buddy_heap_t \<Rightarrow> memory \<Rightarrow> u32 \<Rightarrow> nat \<Rightarrow> (buddy_heap_t \<times> memory) option" where
  "bsplit h m add sz =
     do {
       (h1, m1) \<leftarrow> bremove h m add sz;
       let sz1 = sz - 1;
       let s = push_bit sz1 (1 :: u32);
       (h2, m2) \<leftarrow> binsert h1 m1 (add + s) sz1;
       binsert h2 m2 add sz1
     }"

text \<open>The loop of \<^verbatim>\<open>bjoin\<close>, with the loop variables \<open>b\<close>, \<open>s\<close> and \<open>rc\<close>.\<close>

partial_function (option) bjoin_loop ::
    "buddy_heap_t \<Rightarrow> memory \<Rightarrow> u32 \<Rightarrow> nat \<Rightarrow> int \<Rightarrow> (int \<times> buddy_heap_t \<times> memory) option" where
  "bjoin_loop h m b s rc =
     (if s < b_AMAX h then
        do {
          isin \<leftarrow> bisin h m (findbuddy b s) s;
          if isin then
            do {
              (h1, m1) \<leftarrow> bremove h m (findbuddy b s) s;
              (h2, m2) \<leftarrow> (if rc \<noteq> 0 then bremove h1 m1 b s else Some (h1, m1));
              let b1 = (if b < findbuddy b s then b else findbuddy b s);
              (h3, m3) \<leftarrow> binsert h2 m2 b1 (s + 1);
              bjoin_loop h3 m3 b1 (s + 1) (if rc = 0 then 1 else rc)
            }
          else Some (rc, h, m)
        }
      else Some (rc, h, m))"

declare bjoin_loop.simps [code]

definition bjoin :: "buddy_heap_t \<Rightarrow> memory \<Rightarrow> u32 \<Rightarrow> nat \<Rightarrow> (int \<times> buddy_heap_t \<times> memory) option" where
  "bjoin h m add sz = bjoin_loop h m add sz 0"

text \<open>The dry run of \<^verbatim>\<open>bextend\<close> (the result is the final \<open>i\<close>) and its real run.\<close>

partial_function (option) bextend_dry :: "buddy_heap_t \<Rightarrow> memory \<Rightarrow> u32 \<Rightarrow> nat \<Rightarrow> nat \<Rightarrow> nat option" where
  "bextend_dry h m b i s =
     (if i < s then
        (if findbuddy b i < b then Some i
         else do {
           isin \<leftarrow> bisin h m (findbuddy b i) i;
           if \<not> isin then Some i else bextend_dry h m b (i + 1) s
         })
      else Some i)"

declare bextend_dry.simps [code]

partial_function (option) bextend_real ::
    "buddy_heap_t \<Rightarrow> memory \<Rightarrow> u32 \<Rightarrow> nat \<Rightarrow> nat \<Rightarrow> (buddy_heap_t \<times> memory) option" where
  "bextend_real h m b i s =
     (if i < s then
        do {
          (h1, m1) \<leftarrow> bremove h m (findbuddy b i) i;
          bextend_real h1 m1 b (i + 1) s
        }
      else Some (h, m))"

declare bextend_real.simps [code]

definition bextend :: "buddy_heap_t \<Rightarrow> memory \<Rightarrow> u32 \<Rightarrow> nat \<Rightarrow> nat \<Rightarrow> (int \<times> buddy_heap_t \<times> memory) option" where
  "bextend h m b c s =
     do {
       i \<leftarrow> bextend_dry h m b c s;
       if i = s then
         do {
           (h1, m1) \<leftarrow> bextend_real h m b c s;
           let k = block2size b;
           let h2 = erasesize h1 k;
           let h3 = putsize h2 k (of_nat s);
           Some (1, h3, m1)
         }
       else Some (0, h, m)
     }"

text \<open>
  The loop of \<^verbatim>\<open>bshrink\<close>.  The last argument and result is a ghost value, which the
  C code does not compute: the list of the calls to \<^verbatim>\<open>binsert\<close> made so far, each
  with the block address and the list index passed.
\<close>

partial_function (option) bshrink_loop ::
    "buddy_heap_t \<Rightarrow> memory \<Rightarrow> u32 \<Rightarrow> u32 \<Rightarrow> (u32 \<times> nat) list
       \<Rightarrow> (buddy_heap_t \<times> memory \<times> (u32 \<times> nat) list) option" where
  "bshrink_loop h m b cz ins =
     (if cz > 0 then
        (let k0 = nextpow2 cz;
             k = (if cz \<noteq> k0 then drop_bit 2 k0 else k0)
         in do {
              (h1, m1) \<leftarrow> binsert h m b (buddy_log2 k);
              bshrink_loop h1 m1 (b + k) (cz - k) (ins @ [(b, buddy_log2 k)])
            })
      else Some (h, m, ins))"

declare bshrink_loop.simps [code]

definition bshrink ::
    "buddy_heap_t \<Rightarrow> memory \<Rightarrow> u32 \<Rightarrow> nat \<Rightarrow> nat \<Rightarrow> (buddy_heap_t \<times> memory \<times> (u32 \<times> nat) list) option" where
  "bshrink h m b c s =
     (let cz = push_bit c (1 :: u32);
          sz = push_bit s (1 :: u32);
          k = block2size b;
          h1 = erasesize h k;
          h2 = putsize h1 k (of_nat s);
          b1 = b + sz
      in do {
           (h3, m3) \<leftarrow> binsert h2 m b1 s;
           bshrink_loop h3 m3 (b1 + sz) (cz - push_bit 1 sz) [(b1, s)]
         })"


subsection \<open>getblock, freeblock, extendblock\<close>

text \<open>
  The first loop of \<^verbatim>\<open>getblock\<close>: the least \<open>i\<close> from \<open>s\<close> to \<open>AMAX\<close> with a
  non-empty avail list, and its head \<open>b\<close>; \<open>AMAX + 1\<close> and \<open>NOBLOCK\<close> if there is none.
\<close>

function getblock_scan :: "buddy_heap_t \<Rightarrow> nat \<Rightarrow> nat \<times> u32" where
  "getblock_scan h i =
     (if i \<le> b_AMAX h
      then (if b_ah h i \<noteq> NOBLOCK then (i, b_ah h i) else getblock_scan h (i + 1))
      else (i, NOBLOCK))"
  by pat_completeness auto
termination
  by (relation "measure (\<lambda>(h, i). b_AMAX h + 1 - i)") auto

declare getblock_scan.simps [simp del]

text \<open>The second loop of \<^verbatim>\<open>getblock\<close>: split from \<open>i\<close> down to \<open>s\<close>.\<close>

partial_function (option) getblock_split ::
    "buddy_heap_t \<Rightarrow> memory \<Rightarrow> nat \<Rightarrow> nat \<Rightarrow> u32 \<Rightarrow> (nat \<times> u32 \<times> buddy_heap_t \<times> memory) option" where
  "getblock_split h m i s b =
     (if i > s then
        (if b_ah h i = NOBLOCK then Some (i, b_ah h i, h, m)
         else do {
           (h1, m1) \<leftarrow> bsplit h m (b_ah h i) i;
           getblock_split h1 m1 (i - 1) s (b_ah h i)
         })
      else Some (i, b, h, m))"

declare getblock_split.simps [code]

definition getblock :: "buddy_heap_t \<Rightarrow> memory \<Rightarrow> u32 \<Rightarrow> (u32 \<times> buddy_heap_t \<times> memory) option" where
  "getblock h m sz =
     (let s = buddy_log2 sz;
          (i0, b0) = getblock_scan h s
      in do {
           (i, b, h1, m1) \<leftarrow> (if i0 \<le> b_AMAX h then getblock_split h m i0 s b0
                                else Some (i0, b0, h, m));
           if i = s \<and> b \<noteq> NOBLOCK then
             (if getsize h1 (block2size b) = 0 then
                do {
                  (h2, m2) \<leftarrow> bremove h1 m1 b s;
                  Some (b, putsize h2 (block2size b) (of_nat s), m2)
                }
              else None)
           else Some (NOBLOCK, h1, m1)
         })"

definition freeblock :: "buddy_heap_t \<Rightarrow> memory \<Rightarrow> u32 \<Rightarrow> (int \<times> buddy_heap_t \<times> memory) option" where
  "freeblock h m block =
     (if modpow2 block MINSIZE = 0 then
        (let s = getsize h (block2size block)
         in if s \<noteq> 0 then
              (let h1 = erasesize h (block2size block)
               in do {
                    (j, h2, m2) \<leftarrow> bjoin h1 m block (unat s);
                    (h3, m3) \<leftarrow> (if j = 0 then binsert h2 m2 block (unat s) else Some (h2, m2));
                    Some (OK, h3, m3)
                  })
            else Some (NOTFOUND, h, m))
      else Some (NOTFOUND, h, m))"

text \<open>
  \<^verbatim>\<open>extendblock\<close> takes the current \<^verbatim>\<open>*rc\<close> and returns the block and the final
  \<^verbatim>\<open>*rc\<close>.  The two \<^verbatim>\<open>assert\<close>s after \<^verbatim>\<open>freeblock\<close> abort unless it returned 0.
\<close>

definition extendblock ::
    "buddy_heap_t \<Rightarrow> memory \<Rightarrow> u32 \<Rightarrow> u32 \<Rightarrow> int \<Rightarrow> (u32 \<times> int \<times> buddy_heap_t \<times> memory) option" where
  "extendblock h m b sz rc =
     (if modpow2 b MINSIZE \<noteq> 0 then Some (NOBLOCK, NOTFOUND, h, m)
      else
        (let cs = getsize h (block2size b)
         in if cs = 0 then Some (NOBLOCK, NOTFOUND, h, m)
            else
              (let csz = push_bit (unat cs) (1 :: u32)
               in if csz = sz then Some (b, rc, h, m)
                  else if csz < sz then
                    do {
                      (ext, h1, m1) \<leftarrow> bextend h m b (unat cs) (buddy_log2 sz);
                      if ext \<noteq> 0 then Some (b, rc, h1, m1)
                      else
                        do {
                          (ret, h2, m2) \<leftarrow> getblock h1 m1 sz;
                          if ret \<noteq> NOBLOCK then
                            (let m3 = memcpy m2 (block2ptr h2 ret) (block2ptr h2 b) (ucast csz)
                             in do {
                                  (rc1, h4, m4) \<leftarrow> freeblock h2 m3 b;
                                  if rc1 AND NOTFOUND = 0 \<and> rc1 \<ge> 0 then Some (ret, OK, h4, m4)
                                  else None
                                })
                          else Some (ret, rc, h2, m2)
                        }
                    }
                  else
                    do {
                      (h1, m1, ins) \<leftarrow> bshrink h m b (unat cs) (buddy_log2 sz);
                      Some (b, rc, h1, m1)
                    })))"

subsection \<open>Public interface\<close>

text \<open>
  \<^verbatim>\<open>init_avail\<close>: \<^verbatim>\<open>memset(h->ah, 0xff, h->asize)\<close>, which sets the entries
  \<open>0, \<dots>, asize / 4 - 1\<close> of the table to \<^verbatim>\<open>NOBLOCK\<close>, and the insertion of block 0.
\<close>

definition init_avail :: "buddy_heap_t \<Rightarrow> memory \<Rightarrow> (buddy_heap_t \<times> memory) option" where
  "init_avail h m =
     (if in_region h (b_ahp h) (b_asize h) then
        (let h1 = h\<lparr>b_ah := (\<lambda>i. if 4 * i < unat (b_asize h) then NOBLOCK else b_ah h i)\<rparr>
         in binsert h1 m 0 (buddy_log2 (b_msize h1)))
      else None)"

text \<open>
  \<^verbatim>\<open>buddy_init\<close>, in two parts: the assignments that compute the layout
  (\<^verbatim>\<open>msize\<close>, \<^verbatim>\<open>eh\<close>, \<^verbatim>\<open>AMAX\<close>, \<^verbatim>\<open>asize\<close>, \<^verbatim>\<open>ssize\<close>, \<^verbatim>\<open>esize\<close>, \<^verbatim>\<open>ah\<close>, \<^verbatim>\<open>sh\<close>), and
  the initialisation of the areas.  \<^verbatim>\<open>esize\<close> is computed in 32 bits and wraps
  when \<open>asize + ssize > msize\<close>; \<^verbatim>\<open>h->eh + h->esize\<close> and \<^verbatim>\<open>h->ah + h->asize\<close> are
  computed in 64 bits.  The \<^verbatim>\<open>printf\<close> calls are left out.
\<close>

definition buddy_layout :: "buddy_heap_t \<Rightarrow> buddy_heap_t" where
  "buddy_layout h =
     (let h1 = h\<lparr>b_msize := ucast (b_hs h div 2)\<rparr>;
          h2 = h1\<lparr>b_eh := b_mh h1 + ucast (b_msize h1)\<rparr>;
          h3 = h2\<lparr>b_AMAX := buddy_log2 (b_msize h2)\<rparr>;
          h4 = h3\<lparr>b_asize := of_nat ((b_AMAX h3 + 1) * 4)\<rparr>;
          h5 = h4\<lparr>b_ssize := b_msize h4 div 8 + 1\<rparr>;
          h6 = h5\<lparr>b_ssize := b_ssize h5 * 6\<rparr>;
          h7 = h6\<lparr>b_ssize := b_ssize h6 div 8\<rparr>;
          h8 = h7\<lparr>b_esize := b_msize h7 - (b_asize h7 + b_ssize h7)\<rparr>;
          h9 = h8\<lparr>b_ahp := b_eh h8 + ucast (b_esize h8)\<rparr>
      in h9\<lparr>b_shp := b_ahp h9 + ucast (b_asize h9)\<rparr>)"

definition buddy_init :: "buddy_heap_t \<Rightarrow> memory \<Rightarrow> (int \<times> buddy_heap_t \<times> memory) option" where
  "buddy_init h m =
     (if b_mh h \<noteq> 0 \<and> b_hs h \<noteq> 0 then
        (let h8 = buddy_layout h;
             m1 = memset m (b_mh h8) 0xff (ucast (b_msize h8))
         in do {
              h9 \<leftarrow> init_size h8;
              (h10, m2) \<leftarrow> init_avail h9 m1;
              if b_e h10 \<noteq> 0 then
                (let f1 = (b_ffh h10)\<lparr>f_mh := b_eh h10\<rparr>;
                     f2 = f1\<lparr>f_hs := ucast (b_esize h10)\<rparr>;
                     (rc, f3, m3) = ffit_init f2 m2
                 in Some (rc, h10\<lparr>b_ffh := f3\<rparr>, m3))
              else Some (OK, h10, m2)
            })
      else Some (- 1, h, m))"

text \<open>The effective size of a request: \<^verbatim>\<open>sz < MINSIZE ? MINSIZE : nextpow2(sz)\<close>.\<close>

definition buddy_effsize :: "u64 \<Rightarrow> u32" where
  "buddy_effsize sz = (if sz < 8 then MINSIZE else nextpow2 (ucast sz))"

definition buddy_get_block :: "buddy_heap_t \<Rightarrow> memory \<Rightarrow> u64 \<Rightarrow> (u64 \<times> buddy_heap_t \<times> memory) option" where
  "buddy_get_block h m sz =
     (if sz > 0 then
        (let s = buddy_effsize sz
         in if s < b_msize h then
              do {
                (b, h1, m1) \<leftarrow> getblock h m s;
                if b \<noteq> NOBLOCK then Some (block2ptr h1 b, h1, m1)
                else if b_e h1 \<noteq> 0 then
                  do {
                    (ret, f1, m2) \<leftarrow> ffit_get_block (b_ffh h1) m1 sz;
                    Some (ret, h1\<lparr>b_ffh := f1\<rparr>, m2)
                  }
                else Some (0, h1, m1)
              }
            else Some (0, h, m))
      else Some (0, h, m))"

definition buddy_free_block :: "buddy_heap_t \<Rightarrow> memory \<Rightarrow> u64 \<Rightarrow> (int \<times> buddy_heap_t \<times> memory) option" where
  "buddy_free_block h m ptr =
     (if ptr < b_mh h \<or> ptr \<ge> b_mh h + ucast (b_msize h) + ucast (b_esize h)
      then Some (NOTFOUND, h, m)
      else if ptr \<ge> b_eh h then
        (if b_e h \<noteq> 0 then
           do {
             (rc, f1, m1) \<leftarrow> ffit_free_block (b_ffh h) m ptr;
             Some (rc, h\<lparr>b_ffh := f1\<rparr>, m1)
           }
         else Some (NOTFOUND, h, m))
      else
        do {
          (rc, h1, m1) \<leftarrow> freeblock h m (ptr2block h ptr);
          Some (if rc AND NOTFOUND = NOTFOUND then NOTFOUND
                else if rc < 0 then INTERNAL else OK, h1, m1)
        })"

text \<open>The result of \<^verbatim>\<open>buddy_extend_block\<close> is the pointer returned and the final \<^verbatim>\<open>*rc\<close>.\<close>

definition buddy_extend_block ::
    "buddy_heap_t \<Rightarrow> memory \<Rightarrow> u64 \<Rightarrow> u64 \<Rightarrow> (u64 \<times> int \<times> buddy_heap_t \<times> memory) option" where
  "buddy_extend_block h m ptr sz =
     (if ptr = 0 then
        do {
          (ret, h1, m1) \<leftarrow> buddy_get_block h m sz;
          Some (ret, OK, h1, m1)
        }
      else if sz = 0 then
        do {
          (rc, h1, m1) \<leftarrow> buddy_free_block h m ptr;
          Some (0, rc, h1, m1)
        }
      else if ptr \<ge> b_mh h + b_hs h then Some (0, OK, h, m)
      else if ptr \<ge> b_eh h then
        (if b_e h \<noteq> 0 then
           do {
             (ret, rc, f1, m1) \<leftarrow> ffit_extend_block (b_ffh h) m ptr sz;
             Some (ret, rc, h\<lparr>b_ffh := f1\<rparr>, m1)
           }
         else Some (0, OK, h, m))
      else
        (let s = buddy_effsize sz
         in if s < b_msize h then
              do {
                (ret, rc, h1, m1) \<leftarrow> extendblock h m (ptr2block h ptr) s OK;
                Some (block2ptr h1 ret, rc, h1, m1)
              }
            else Some (0, OK, h, m)))"


section \<open>The heaps of the test programs\<close>

text \<open>
  \<^verbatim>\<open>buddysmoke.c\<close> and \<^verbatim>\<open>testbuddy1.c\<close> keep the descriptor and the region in static
  storage, so both start out zeroed; \<^verbatim>\<open>heapinit()\<close> then sets \<^verbatim>\<open>mh\<close>, \<^verbatim>\<open>hs\<close> and
  \<^verbatim>\<open>e\<close>.  The address of the region is chosen by the linker; \<open>0x100000\<close> stands for it.
\<close>

definition zero_mem :: memory where
  "zero_mem = (\<lambda>a. 0)"

definition smoke_ffit :: ffit_heap_t where
  "smoke_ffit = \<lparr>f_mh = 0x100000, f_hs = 1048576, f_first = 0, f_last = 0\<rparr>"

definition smoke_buddy :: buddy_heap_t where
  "smoke_buddy =
     \<lparr>b_mh = 0x100000, b_hs = 2097152, b_e = 0, b_eh = 0, b_ahp = 0, b_shp = 0,
      b_ah = (\<lambda>i. 0), b_sh = (\<lambda>i. 0),
      b_msize = 0, b_asize = 0, b_ssize = 0, b_esize = 0, b_AMAX = 0,
      b_ffh = \<lparr>f_mh = 0, f_hs = 0, f_first = 0, f_last = 0\<rparr>\<rparr>"

text \<open>A first-fit arena over a region of 50 bytes (\<^verbatim>\<open>ffit_init\<close> accepts every \<open>hs > 32\<close>).\<close>

definition tiny_ffit :: ffit_heap_t where
  "tiny_ffit = \<lparr>f_mh = 0x100000, f_hs = 50, f_first = 0, f_last = 0\<rparr>"

section \<open>Auxiliary notions for the statements\<close>

text \<open>
  The size area read as a stream of bits, most significant bit of each byte first:
  bit \<open>q\<close> of the stream is bit \<open>7 - q mod 8\<close> of byte \<open>q div 8\<close>.  Entry \<open>i\<close> of the size
  area is the six stream bits \<open>6 * i, \<dots>, 6 * i + 5\<close>.
\<close>

definition sbit :: "(nat \<Rightarrow> u8) \<Rightarrow> nat \<Rightarrow> bool" where
  "sbit sh q = bit (sh (q div 8)) (7 - q mod 8)"

text \<open>
  \<open>covers k x x'\<close>: bit \<open>n\<close> of \<open>x'\<close> is set exactly when one of the \<open>k\<close> bits of \<open>x\<close>
  from \<open>n\<close> upwards is set.  It describes the steps of \<^verbatim>\<open>nextpow2\<close>.
\<close>

definition covers :: "nat \<Rightarrow> u32 \<Rightarrow> u32 \<Rightarrow> bool" where
  "covers k x x' \<longleftrightarrow> (\<forall>n. bit x' n \<longleftrightarrow> (\<exists>j<k. bit x (n + j)))"

text \<open>
  \<open>tiles a ins e\<close>: the blocks of the list \<open>ins\<close>, each given by its address and its
  class \<open>k\<close> (so of \<open>2 ^ k\<close> bytes), lie one behind the other from \<open>a\<close> to \<open>e\<close>.
\<close>

fun tiles :: "nat \<Rightarrow> (u32 \<times> nat) list \<Rightarrow> nat \<Rightarrow> bool" where
  "tiles a [] e = (a = e)"
| "tiles a ((b, k) # bs) e = (unat b = a \<and> tiles (a + 2 ^ k) bs e)"

text \<open>\<open>far d\<close>: two 32 bit cells whose addresses differ by \<open>d\<close> do not overlap.\<close>

definition far :: "u64 \<Rightarrow> bool" where
  "far d \<longleftrightarrow> 4 \<le> unat d \<and> unat d \<le> 2 ^ 64 - 4"

text \<open>
  The release rule of the shrink case in the words of the specification: while the
  remainder \<open>cz\<close> is positive, let \<open>m\<close> be the next power of two of \<open>cz\<close>, take
  \<open>m >> 2\<close> instead if \<open>m \<noteq> cz\<close>, insert the block at the current address into list
  \<open>log2 m\<close>, and advance.  \<open>spec_release a cz\<close> is the list of the blocks released
  from address \<open>a\<close> on, each with its list.
\<close>

definition spec_nextpow2 :: "nat \<Rightarrow> nat" where
  "spec_nextpow2 n = 2 ^ floorlog 2 (n - 1)"

function spec_release :: "nat \<Rightarrow> nat \<Rightarrow> (nat \<times> nat) list" where
  "spec_release a cz =
     (if cz > 0 then
        (let m0 = spec_nextpow2 cz;
             m = (if m0 \<noteq> cz then m0 div 4 else m0)
         in (a, floorlog 2 m - 1) # spec_release (a + m) (cz - m))
      else [])"
  by pat_completeness auto
termination
proof (relation "measure (\<lambda>(a, cz). cz)")
  show "wf (measure (\<lambda>(a, cz). cz))" by simp
next
  fix a cz m0 m :: nat
  assume cz: "0 < cz" and m0: "m0 = spec_nextpow2 cz" and m: "m = (if m0 \<noteq> cz then m0 div 4 else m0)"
  have "0 < m"
  proof (cases "m0 = cz")
    case True
    then show ?thesis using m cz by simp
  next
    case False
    have "3 \<le> cz"
    proof (rule ccontr)
      assume "\<not> 3 \<le> cz"
      then consider "cz = 1" | "cz = 2" using cz by arith
      then show False using False m0 by cases (simp_all add: spec_nextpow2_def compute_floorlog)
    qed
    then have "floorlog 2 2 \<le> floorlog 2 (cz - 1)" by (intro floorlog_mono) simp
    moreover have "floorlog 2 2 = (2 :: nat)" by (simp add: compute_floorlog)
    ultimately have "(2 :: nat) ^ 2 \<le> m0" unfolding m0 spec_nextpow2_def
      by (simp only: power_increasing one_le_numeral)
    then show ?thesis using m False by simp
  qed
  then show "((a + m, cz - m), (a, cz)) \<in> measure (\<lambda>(a, cz). cz)" using cz by simp
qed

declare spec_release.simps [simp del]

text \<open>
  The avail lists as they are threaded through the heap.  \<open>links h m xs\<close>: in the
  store \<open>m\<close> each block of \<open>xs\<close> has the next one as its \<^verbatim>\<open>nxt\<close>.  \<open>chain k ins\<close>: the
  blocks that the insertions \<open>ins\<close> put into list \<open>k\<close>, the last one first.
  \<open>avail_inv n h m ins\<close>: the insertions went into lists below \<open>n\<close>, the heads of
  these lists and all inserted blocks are multiples of 8 (or \<^verbatim>\<open>NOBLOCK\<close>), the head of
  each list that received a block is the block inserted last, and the inserted
  blocks of each list are linked.
\<close>

fun links :: "buddy_heap_t \<Rightarrow> memory \<Rightarrow> u32 list \<Rightarrow> bool" where
  "links h m (x # y # r) = (bl_nxt m (block2ptr h x) = y \<and> links h m (y # r))"
| "links h m [x] = True"
| "links h m [] = True"

definition chain :: "nat \<Rightarrow> (u32 \<times> nat) list \<Rightarrow> u32 list" where
  "chain k ins = rev (map fst (filter (\<lambda>e. snd e = k) ins))"

definition avail_inv :: "nat \<Rightarrow> buddy_heap_t \<Rightarrow> memory \<Rightarrow> (u32 \<times> nat) list \<Rightarrow> bool" where
  "avail_inv n h m ins \<longleftrightarrow>
     (\<forall>e \<in> set ins. 8 dvd unat (fst e) \<and> snd e < n)
   \<and> (\<forall>k. k < n \<longrightarrow> b_ah h k = NOBLOCK \<or> 8 dvd unat (b_ah h k))
   \<and> (\<forall>k. chain k ins \<noteq> [] \<longrightarrow> b_ah h k = hd (chain k ins))
   \<and> (\<forall>k. links h m (chain k ins))"

section \<open>The size area codec\<close>

lemma block2size_less: "block2size a < 2 ^ 29"
proof -
  have "unat (block2size a) = unat a div 8"
    by (simp add: block2size_def drop_bit_eq_div unat_div)
  moreover have "unat a < 2 ^ 32" using unsigned_less[of a] by simp
  ultimately have "unat (block2size a) < 2 ^ 29" by simp
  then show ?thesis by (simp add: word_less_nat_alt)
qed

lemma idx_p: assumes "i < (2 ^ 29 :: u32)"
  shows "unat (i * 6) = 6 * unat i"
  using assms by (simp add: unat_word_ariths word_less_nat_alt)

lemma idx_y: assumes "i < (2 ^ 29 :: u32)"
  shows "unat ((i * 6) div 8) = (6 * unat i) div 8"
  using assms by (simp add: unat_div idx_p)

lemma idx_y1: assumes "i < (2 ^ 29 :: u32)"
  shows "unat ((i * 6) div 8 + 1) = (6 * unat i) div 8 + 1"
proof -
  have "unat ((i * 6) div 8) < 2 ^ 29" using assms by (simp add: idx_y word_less_nat_alt)
  then show ?thesis using idx_y[OF assms] by (simp add: unat_word_ariths)
qed

lemma idx_b: assumes "i < (2 ^ 29 :: u32)"
  shows "unat (modpow2 (i * 6) 8) = (6 * unat i) mod 8"
proof -
  have "modpow2 (i * 6) 8 = (i * 6) AND mask 3" by (simp add: modpow2_def mask_eq_exp_minus_1)
  also have "\<dots> = take_bit 3 (i * 6)" by (simp add: take_bit_eq_mask)
  finally have "modpow2 (i * 6) 8 = (i * 6) mod 8" by (simp add: take_bit_eq_mod)
  then show ?thesis using idx_p[OF assms] by (simp only: unat_mod) simp
qed

lemma idx_8b: assumes "i < (2 ^ 29 :: u32)"
  shows "unat (8 - modpow2 (i * 6) 8) = 8 - (6 * unat i) mod 8"
proof -
  have "unat (modpow2 (i * 6) 8) \<le> 7" using idx_b[OF assms] by simp
  then have "modpow2 (i * 6) 8 \<le> 8" by (simp add: word_le_nat_alt)
  then show ?thesis using idx_b[OF assms] by (simp add: unat_sub)
qed

lemma idx_b2: assumes "i < (2 ^ 29 :: u32)" "modpow2 (i * 6) 8 \<noteq> 0"
  shows "unat (modpow2 (i * 6) 8 - 2) = (6 * unat i) mod 8 - 2"
proof -
  have p: "6 * unat i = 8 * (6 * unat i div 8) + 6 * unat i mod 8"
    by (rule mult_div_mod_eq[symmetric])
  have "unat (modpow2 (i * 6) 8) \<noteq> 0" using assms(2) by (simp add: unat_eq_zero)
  then have "6 * unat i mod 8 \<noteq> 0" using idx_b[OF assms(1)] by simp
  then have "2 \<le> 6 * unat i mod 8" using p by presburger
  then have "2 \<le> modpow2 (i * 6) 8" using idx_b[OF assms(1)] by (simp add: word_le_nat_alt)
  then show ?thesis using idx_b[OF assms(1)] by (simp add: unat_sub)
qed

lemma bit8_oob: "8 \<le> n \<Longrightarrow> \<not> bit (w :: u8) n"
  by (auto dest: bit_imp_le_length)

lemma bit_le63: assumes "v \<le> (63 :: u8)" "6 \<le> n" shows "\<not> bit v n"
proof -
  have "v < 2 ^ 6" using assms(1) by (simp add: word_less_nat_alt word_le_nat_alt)
  then have "v AND mask 6 = v" by (rule less_mask_eq)
  then have "bit v n = bit (v AND mask 6) n" by simp
  then show ?thesis using assms(2) by (simp add: bit_simps)
qed

text \<open>\<^verbatim>\<open>getsize\<close> reads the six stream bits of the entry, the first one as bit 5.\<close>

lemma getsize_bits:
  assumes "i < (2 ^ 29 :: u32)"
  shows "bit (getsize h i) k \<longleftrightarrow> k < 6 \<and> sbit (b_sh h) (6 * unat i + 5 - k)"
proof -
  define y where "y = 6 * unat i div 8"
  define b where "b = 6 * unat i mod 8"
  have b: "b < 8" by (simp add: b_def)
  have p: "6 * unat i = 8 * y + b" unfolding y_def b_def by (rule mult_div_mod_eq[symmetric])
  have g: "getsize h i = drop_bit 2 ((ucast (push_bit b (ucast (b_sh h y) :: u32)) :: u8)
             OR ucast (drop_bit (8 - b) (ucast (b_sh h (y + 1)) :: u32)))"
    using assms by (simp add: getsize_def Let_def idx_y idx_y1 idx_b idx_8b y_def b_def)
  have bb: "b = 0 \<or> b = 2 \<or> b = 4 \<or> b = 6" using p b by presburger
  show ?thesis
  proof (cases "k < 6")
    case False
    then show ?thesis by (auto simp: g bit_simps)
  next
    case True
    then have kk: "k = 0 \<or> k = 1 \<or> k = 2 \<or> k = 3 \<or> k = 4 \<or> k = 5" by arith
    have d: "(8 * y + b + 5 - k) div 8 = (if b + 5 - k < 8 then y else y + 1)"
      using b True by (auto simp: div_nat_eqI)
    have r: "(8 * y + b + 5 - k) mod 8 = (if b + 5 - k < 8 then b + 5 - k else b + 5 - k - 8)"
      using b True by (auto simp: mod_nat_eqI)
    show ?thesis using bb kk unfolding g sbit_def p d r
      by (elim disjE; simp add: bit_simps bit8_oob)
  qed
qed

text \<open>\<^verbatim>\<open>putsize\<close> ors the six bits of \<open>v\<close> into the entry and changes no other stream bit.\<close>

lemma putsize_bits:
  assumes "i < (2 ^ 29 :: u32)" "v \<le> 63"
  shows "sbit (b_sh (putsize h i v)) q \<longleftrightarrow>
         sbit (b_sh h) q \<or> (6 * unat i \<le> q \<and> q < 6 * unat i + 6 \<and> bit v (6 * unat i + 5 - q))"
proof -
  define y where "y = 6 * unat i div 8"
  define b where "b = 6 * unat i mod 8"
  define Q where "Q = q div 8"
  define R where "R = q mod 8"
  define sh where "sh = b_sh h"
  have b: "b < 8" by (simp add: b_def)
  have p: "6 * unat i = 8 * y + b" unfolding y_def b_def by (rule mult_div_mod_eq[symmetric])
  have q: "q = 8 * Q + R" unfolding Q_def R_def by (rule mult_div_mod_eq[symmetric])
  have bb: "b = 0 \<or> b = 2 \<or> b = 4 \<or> b = 6" using p b by presburger
  have "R < 8" by (simp add: R_def)
  then have rr: "R = 0 \<or> R = 1 \<or> R = 2 \<or> R = 3 \<or> R = 4 \<or> R = 5 \<or> R = 6 \<or> R = 7" by arith
  have g: "b_sh (putsize h i v) =
             (sh(y := sh y OR ucast (drop_bit b (push_bit 2 (ucast v :: u32)))))
             (y + 1 := sh (y + 1) OR ucast (push_bit (8 - b) (push_bit 2 (ucast v :: u32))))"
    using assms(1) by (simp add: putsize_def Let_def idx_y idx_y1 idx_b idx_8b y_def b_def sh_def)
  have v6: "\<And>n. 6 \<le> n \<Longrightarrow> \<not> bit v n" using assms(2) by (rule bit_le63)
  consider "Q = y" | "Q = y + 1" | "Q \<noteq> y \<and> Q \<noteq> y + 1" by blast
  then show ?thesis
  proof cases
    case 1
    show ?thesis
      unfolding sbit_def Q_def[symmetric] R_def[symmetric] sh_def[symmetric] p unfolding q 1 g
      using bb rr by (elim disjE; simp add: bit_simps v6)
  next
    case 2
    show ?thesis
      unfolding sbit_def Q_def[symmetric] R_def[symmetric] sh_def[symmetric] p unfolding q 2 g
      using bb rr by (elim disjE; simp add: bit_simps v6)
  next
    case 3
    then have "\<not> (8 * y + b \<le> 8 * Q + R \<and> 8 * Q + R < 8 * y + b + 6)"
      using b \<open>R < 8\<close> by arith
    then show ?thesis
      unfolding sbit_def Q_def[symmetric] R_def[symmetric] sh_def[symmetric] p unfolding q g
      using 3 by auto
  qed
qed

text \<open>\<^verbatim>\<open>erasesize\<close> clears the six stream bits of the entry and no other.\<close>

lemma erasesize_bits:
  assumes "i < (2 ^ 29 :: u32)"
  shows "sbit (b_sh (erasesize h i)) q \<longleftrightarrow>
         sbit (b_sh h) q \<and> \<not> (6 * unat i \<le> q \<and> q < 6 * unat i + 6)"
proof -
  define y where "y = 6 * unat i div 8"
  define b where "b = 6 * unat i mod 8"
  define Q where "Q = q div 8"
  define R where "R = q mod 8"
  define sh where "sh = b_sh h"
  have b: "b < 8" by (simp add: b_def)
  have p: "6 * unat i = 8 * y + b" unfolding y_def b_def by (rule mult_div_mod_eq[symmetric])
  have q: "q = 8 * Q + R" unfolding Q_def R_def by (rule mult_div_mod_eq[symmetric])
  have bb: "b = 0 \<or> b = 2 \<or> b = 4 \<or> b = 6" using p b by presburger
  have "R < 8" by (simp add: R_def)
  then have rr: "R = 0 \<or> R = 1 \<or> R = 2 \<or> R = 3 \<or> R = 4 \<or> R = 5 \<or> R = 6 \<or> R = 7" by arith
  have b0: "modpow2 (i * 6) 8 = 0 \<longleftrightarrow> b = 0"
    using idx_b[OF assms] by (simp add: b_def unat_eq_zero[symmetric])
  have g: "b_sh (erasesize h i) =
      (if b = 0 then sh(y := sh y AND ucast (drop_bit 6 (0xff :: u32)))
       else (sh(y := sh y AND ucast (push_bit (8 - b) (0xff :: u32))))
              (y + 1 := sh (y + 1) AND ucast (drop_bit (b - 2) (0xff :: u32))))"
    using assms idx_b2[OF assms]
    by (simp add: erasesize_def Let_def idx_y idx_y1 idx_b idx_8b y_def b_def b0 sh_def)
  have ff: "\<And>n. bit (0xff :: u32) n \<longleftrightarrow> n < 8"
  proof -
    fix n
    have e: "(0xff :: u32) = mask 8" by (simp add: mask_eq_exp_minus_1)
    show "bit (0xff :: u32) n \<longleftrightarrow> n < 8" unfolding e by (auto simp add: bit_mask_iff)
  qed
  consider "Q = y" | "Q = y + 1" | "Q \<noteq> y \<and> Q \<noteq> y + 1" by blast
  then show ?thesis
  proof cases
    case 1
    show ?thesis
      unfolding sbit_def Q_def[symmetric] R_def[symmetric] sh_def[symmetric] p unfolding q 1 g
      using bb rr by (elim disjE; simp add: bit_simps ff)
  next
    case 2
    show ?thesis
      unfolding sbit_def Q_def[symmetric] R_def[symmetric] sh_def[symmetric] p unfolding q 2 g
      using bb rr by (elim disjE; simp add: bit_simps ff)
  next
    case 3
    then have "\<not> (8 * y + b \<le> 8 * Q + R \<and> 8 * Q + R < 8 * y + b + 6)"
      using b \<open>R < 8\<close> by arith
    then show ?thesis
      unfolding sbit_def Q_def[symmetric] R_def[symmetric] sh_def[symmetric] p unfolding q g
      using 3 by auto
  qed
qed

lemma slot_neq: assumes "(j::nat) \<noteq> n" "k < 6"
  shows "\<not> (6 * n \<le> 6 * j + 5 - k \<and> 6 * j + 5 - k < 6 * n + 6)"
  using assms by arith

lemma getsize_putsize_same:
  assumes "i < 2 ^ 29" and "getsize h i = 0" and "v \<le> 63"
  shows "getsize (putsize h i v) i = v"
proof (rule bit_eqI)
  fix k
  have z: "k < 6 \<Longrightarrow> \<not> sbit (b_sh h) (6 * unat i + 5 - k)"
    using getsize_bits[OF assms(1), of h k] assms(2) by auto
  show "bit (getsize (putsize h i v) i) k = bit v k"
    using z bit_le63[OF assms(3), of k]
    by (cases "k < 6") (auto simp: getsize_bits[OF assms(1)] putsize_bits[OF assms(1,3)])
qed

lemma getsize_erasesize_same:
  assumes "i < 2 ^ 29"
  shows "getsize (erasesize h i) i = 0"
  by (rule bit_eqI) (auto simp: getsize_bits[OF assms] erasesize_bits[OF assms])

lemma getsize_putsize_other:
  assumes "i < 2 ^ 29" and "j < 2 ^ 29" and "j \<noteq> i" and "v \<le> 63"
  shows "getsize (putsize h i v) j = getsize h j"
proof -
  have ne: "unat j \<noteq> unat i" using assms(3) by (simp add: word_unat_eq_iff)
  show ?thesis
    by (rule bit_eqI)
      (use slot_neq[OF ne] in \<open>auto simp: getsize_bits[OF assms(2)] putsize_bits[OF assms(1,4)]\<close>)
qed

lemma getsize_erasesize_other:
  assumes "i < 2 ^ 29" and "j < 2 ^ 29" and "j \<noteq> i"
  shows "getsize (erasesize h i) j = getsize h j"
proof -
  have ne: "unat j \<noteq> unat i" using assms(3) by (simp add: word_unat_eq_iff)
  show ?thesis
    by (rule bit_eqI)
      (use slot_neq[OF ne] in \<open>auto simp: getsize_bits[OF assms(2)] erasesize_bits[OF assms(1)]\<close>)
qed

text \<open>
  Claim C7.  A unit index is what \<^verbatim>\<open>block2size\<close> returns for a block address.  For the
  unit index \<open>i\<close> of any block address \<open>a\<close> whose entry holds 0 and any value \<open>v\<close> from
  0 to 63: \<^verbatim>\<open>getsize\<close> after \<^verbatim>\<open>putsize\<close> returns \<open>v\<close>; \<^verbatim>\<open>erasesize\<close> resets the entry to 0
  (whatever it held); and the entry of every other unit index reads the same before
  and after \<^verbatim>\<open>putsize\<close> and before and after \<^verbatim>\<open>erasesize\<close>.
\<close>

theorem size_codec_roundtrip:
  assumes "getsize h (block2size a) = 0" and "v \<le> 63"
  shows "getsize (putsize h (block2size a) v) (block2size a) = v
       \<and> getsize (erasesize (putsize h (block2size a) v) (block2size a)) (block2size a) = 0
       \<and> (\<forall>h'. getsize (erasesize h' (block2size a)) (block2size a) = 0)
       \<and> (\<forall>a'. block2size a' \<noteq> block2size a \<longrightarrow>
             getsize (putsize h (block2size a) v) (block2size a') = getsize h (block2size a')
           \<and> getsize (erasesize h (block2size a)) (block2size a') = getsize h (block2size a'))"
proof (intro conjI allI impI)
  show "getsize (putsize h (block2size a) v) (block2size a) = v"
    using assms by (rule getsize_putsize_same[OF block2size_less])
  show "getsize (erasesize (putsize h (block2size a) v) (block2size a)) (block2size a) = 0"
    by (rule getsize_erasesize_same[OF block2size_less])
  show "getsize (erasesize h' (block2size a)) (block2size a) = 0" for h'
    by (rule getsize_erasesize_same[OF block2size_less])
next
  fix a' assume ne: "block2size a' \<noteq> block2size a"
  show "getsize (putsize h (block2size a) v) (block2size a') = getsize h (block2size a')"
    using ne assms(2) by (rule getsize_putsize_other[OF block2size_less block2size_less])
  show "getsize (erasesize h (block2size a)) (block2size a') = getsize h (block2size a')"
    using ne by (rule getsize_erasesize_other[OF block2size_less block2size_less])
qed


theorem size_codec_roundtrip_witness:
  "getsize smoke_buddy (block2size 40) = 0 \<and> (37 :: u8) \<le> 63
   \<and> getsize (putsize smoke_buddy (block2size 40) 37) (block2size 40) = 37
   \<and> getsize (erasesize (putsize smoke_buddy (block2size 40) 37) (block2size 40)) (block2size 40) = 0
   \<and> block2size 48 \<noteq> block2size 40
   \<and> getsize (putsize smoke_buddy (block2size 40) 37) (block2size 48) = getsize smoke_buddy (block2size 48)
   \<and> getsize (erasesize smoke_buddy (block2size 40)) (block2size 48) = getsize smoke_buddy (block2size 48)"
proof -
  have h1: "getsize smoke_buddy (block2size 40) = 0"
    by (simp add: getsize_def smoke_buddy_def Let_def)
  have h2: "(37 :: u8) \<le> 63" by simp
  have h3: "block2size 48 \<noteq> block2size 40" by (simp add: block2size_def drop_bit_eq_div)
  show ?thesis using size_codec_roundtrip[OF h1 h2] h1 h2 h3 by blast
qed


section \<open>\<^verbatim>\<open>buddy_log2\<close> and \<^verbatim>\<open>nextpow2\<close>\<close>

lemma unat_2p32: assumes "k < 32" shows "unat ((2::u32) ^ k) = 2 ^ k"
proof -
  have "(2::u32) ^ k = of_nat (2 ^ k)" by simp
  moreover have "(2::nat) ^ k < 2 ^ 32" using assms by (intro power_strict_increasing) auto
  ultimately show ?thesis by (simp only: unat_of_nat) simp
qed

lemma floorlog_2p: "floorlog 2 (2 ^ k) = k + 1"
  using floorlog_power[of 1 2 k] by (simp add: floorlog_def)

lemma buddy_log2_pow2: assumes "k < 32" shows "buddy_log2 (2 ^ k) = k"
proof -
  have c: "clz (2 ^ k) = 31 - k" using assms by (simp add: clz_def unat_2p32 floorlog_2p)
  have u: "unat (of_nat (31 - k) :: u8) = 31 - k"
    by (simp add: unat_of_nat)
  then have "of_nat (31 - k) \<le> (31 :: u8)"
    by (simp add: word_le_nat_alt)
  then have "unat ((31 :: u8) - of_nat (31 - k)) = 31 - (31 - k)"
    using u by (simp add: unat_sub)
  then show ?thesis using assms by (simp add: buddy_log2_def c)
qed

text \<open>Each line of \<^verbatim>\<open>nextpow2\<close> doubles the number of bits covered.\<close>

lemma covers_1: "covers 1 x x" by (simp add: covers_def)

lemma covers_step: assumes "covers k x x'" shows "covers (2 * k) x (x' OR drop_bit k x')"
  unfolding covers_def
proof (intro allI iffI)
  fix n
  assume "bit (x' OR drop_bit k x') n"
  then consider "bit x' n" | "bit x' (k + n)" by (auto simp: bit_simps)
  then show "\<exists>j<2 * k. bit x (n + j)"
  proof cases
    case 1
    then obtain j where "j < k" "bit x (n + j)" using assms by (auto simp: covers_def)
    then show ?thesis by (intro exI[of _ j]) auto
  next
    case 2
    then obtain j where "j < k" "bit x (k + n + j)" using assms by (auto simp: covers_def)
    then show ?thesis by (intro exI[of _ "k + j"]) (auto simp: ac_simps)
  qed
next
  fix n
  assume "\<exists>j<2 * k. bit x (n + j)"
  then obtain j where j: "j < 2 * k" "bit x (n + j)" by blast
  show "bit (x' OR drop_bit k x') n"
  proof (cases "j < k")
    case True
    then have "bit x' n" using assms j by (auto simp: covers_def)
    then show ?thesis by (simp add: bit_simps)
  next
    case False
    then have "j - k < k" "bit x (k + n + (j - k))" using j by (auto simp: ac_simps)
    then have "bit x' (k + n)" using assms by (auto simp: covers_def)
    then show ?thesis by (simp add: bit_simps)
  qed
qed

lemma nextpow2_covers: "\<exists>x'. covers 32 (sz - 1) x' \<and> nextpow2 sz = x' + 1"
proof -
  let ?s0 = "sz - 1"
  let ?s1 = "?s0 OR drop_bit 1 ?s0"
  let ?s2 = "?s1 OR drop_bit 2 ?s1"
  let ?s3 = "?s2 OR drop_bit 4 ?s2"
  let ?s4 = "?s3 OR drop_bit 8 ?s3"
  let ?s5 = "?s4 OR drop_bit 16 ?s4"
  have "covers 2 ?s0 ?s1" using covers_step[OF covers_1, of ?s0] by simp
  then have "covers 4 ?s0 ?s2" using covers_step[of 2 ?s0 ?s1] by simp
  then have "covers 8 ?s0 ?s3" using covers_step[of 4 ?s0 ?s2] by simp
  then have "covers 16 ?s0 ?s4" using covers_step[of 8 ?s0 ?s3] by simp
  then have "covers 32 ?s0 ?s5" using covers_step[of 16 ?s0 ?s4] by simp
  moreover have "nextpow2 sz = ?s5 + 1" by (simp add: nextpow2_def Let_def)
  ultimately show ?thesis by blast
qed


lemma nat_bit_hi: assumes "(m::nat) < 2 ^ L" "L \<le> q" shows "\<not> bit m q"
proof
  assume b: "bit m q"
  have "take_bit L m = m" using assms(1) by (rule take_bit_nat_eq_self)
  then have "bit m q = bit (take_bit L m) q" by simp
  then show False using b assms(2) by (simp add: bit_take_bit_iff)
qed

lemma nat_bit_top: assumes "(m::nat) < 2 ^ L" "2 ^ (L - 1) \<le> m" "L \<noteq> 0" shows "bit m (L - 1)"
proof -
  have "(2::nat) ^ L = 2 * 2 ^ (L - 1)" using assms(3) by (cases L) auto
  then have "m div 2 ^ (L - 1) = 1" using assms(1,2)
    by (intro div_nat_eqI) auto
  then show ?thesis by (simp add: bit_iff_odd)
qed

lemma covers_mask:
  assumes "covers 32 y x'" and "unat y < 2 ^ L" and "L = 0 \<or> 2 ^ (L - 1) \<le> unat y"
  shows "x' = mask L"
proof (rule bit_eqI)
  fix n
  have wb: "bit y q \<longleftrightarrow> bit (unat y) q" for q
    by (auto simp: bit_unsigned_iff dest: bit_imp_le_length)
  have hi: "\<not> bit y q" if "L \<le> q" for q
    using nat_bit_hi[OF assms(2) that] by (simp add: wb)
  show "bit x' n = bit (mask L :: u32) n"
  proof (cases "n < L")
    case True
    then have L: "L \<noteq> 0" "2 ^ (L - 1) \<le> unat y" using assms(3) by auto
    have top: "bit y (L - 1)" using nat_bit_top[OF assms(2) L(2,1)] by (simp add: wb)
    then have "L - 1 < 32" using bit_imp_le_length[OF top] by simp
    then have "L - 1 - n < 32" "bit y (n + (L - 1 - n))" using True top by auto
    then have "bit x' n" using assms(1) unfolding covers_def by blast
    moreover have "n < 32" using True \<open>L - 1 < 32\<close> by simp
    ultimately show ?thesis using True by (simp add: bit_mask_iff)
  next
    case False
    then have "\<not> bit x' n" using assms(1) hi unfolding covers_def by auto
    then show ?thesis using False by (simp add: bit_mask_iff)
  qed
qed

text \<open>
  For \<open>1 \<le> sz \<le> 2^31\<close>, \<^verbatim>\<open>nextpow2(sz)\<close> is the least power of two that is at least
  \<open>sz\<close>.
\<close>

lemma nextpow2_spec:
  assumes "0 < unat sz" and "unat sz \<le> 2 ^ 31"
  shows "\<exists>L. L \<le> 31 \<and> nextpow2 sz = 2 ^ L \<and> unat sz \<le> 2 ^ L \<and> (L = 0 \<or> 2 ^ (L - 1) < unat sz)"
proof -
  define y where "y = sz - 1"
  define L where "L = floorlog 2 (unat y)"
  have sz0: "sz \<noteq> 0" using assms(1) by force
  have uy: "unat y = unat sz - 1" unfolding y_def using sz0 by (rule unat_minus_one)
  then have ylt: "unat y < 2 ^ 31" using assms by simp
  have Lle: "L \<le> 31" unfolding L_def using ylt by (intro floorlog_leI) auto
  have b1: "unat y < 2 ^ L"
  proof (cases "unat y = 0")
    case True then show ?thesis by simp
  next
    case False
    then show ?thesis using floorlog_bounds[of "unat y" 2] by (simp add: L_def)
  qed
  have b2: "L = 0 \<or> 2 ^ (L - 1) \<le> unat y"
  proof (cases "unat y = 0")
    case True then show ?thesis by (simp add: L_def floorlog_def)
  next
    case False
    then show ?thesis using floorlog_bounds[of "unat y" 2] by (simp add: L_def)
  qed
  obtain x' where x': "covers 32 (sz - 1) x'" "nextpow2 sz = x' + 1"
    using nextpow2_covers by blast
  have "x' = mask L" using covers_mask[OF x'(1)[folded y_def] b1 b2] .
  then have np: "nextpow2 sz = 2 ^ L" using x'(2) by (simp add: inc_mask_eq_exp)
  have "unat sz \<le> 2 ^ L" using b1 uy assms(1) by simp
  moreover have "L = 0 \<or> 2 ^ (L - 1) < unat sz" using b2 uy assms(1) by auto
  ultimately show ?thesis using Lle np by blast
qed

section \<open>\<^verbatim>\<open>buddy_init\<close>\<close>

lemma buddy_layout_fields:
  "b_mh (buddy_layout h) = b_mh h"
  "b_hs (buddy_layout h) = b_hs h"
  "b_e (buddy_layout h) = b_e h"
  "b_ah (buddy_layout h) = b_ah h"
  "b_sh (buddy_layout h) = b_sh h"
  "b_ffh (buddy_layout h) = b_ffh h"
  "b_msize (buddy_layout h) = ucast (b_hs h div 2)"
  "b_eh (buddy_layout h) = b_mh h + ucast (ucast (b_hs h div 2) :: u32)"
  "b_AMAX (buddy_layout h) = buddy_log2 (ucast (b_hs h div 2))"
  "b_asize (buddy_layout h) = of_nat ((buddy_log2 (ucast (b_hs h div 2)) + 1) * 4)"
  "b_ssize (buddy_layout h) = (ucast (b_hs h div 2) div 8 + 1) * 6 div 8"
  "b_esize (buddy_layout h) = b_msize (buddy_layout h) - (b_asize (buddy_layout h) + b_ssize (buddy_layout h))"
  "b_ahp (buddy_layout h) = b_eh (buddy_layout h) + ucast (b_esize (buddy_layout h))"
  "b_shp (buddy_layout h) = b_ahp (buddy_layout h) + ucast (b_asize (buddy_layout h))"
  by (simp_all add: buddy_layout_def Let_def)

lemma in_region_upd [simp]:
  "in_region (h\<lparr>b_sh := x\<rparr>) p n = in_region h p n"
  "in_region (h\<lparr>b_ah := y\<rparr>) p n = in_region h p n"
  by (simp_all add: in_region_def)

lemma init_size_Some:
  assumes "init_size h = Some h'"
  shows "in_region h (b_shp h) (b_ssize h)"
    and "h' = h\<lparr>b_sh := (\<lambda>i. if i < unat (b_ssize h) then 0 else b_sh h i)\<rparr>"
  using assms by (auto simp: init_size_def split: if_splits)

lemma init_avail_Some:
  assumes "init_avail h m = Some (h', m')"
  shows "h' = h\<lparr>b_ah := (\<lambda>i. if 4 * i < unat (b_asize h) then NOBLOCK else b_ah h i)
                 (buddy_log2 (b_msize h) := 0)\<rparr>"
    and "in_region h (b_ahp h) (b_asize h)"
  using assms by (auto simp: init_avail_def binsert_def Let_def split: if_splits)

lemma init_avail_ok:
  assumes "b_msize h \<noteq> 0" and "in_region h (b_ahp h) (b_asize h)"
  shows "\<exists>m'. init_avail h m = Some (h\<lparr>b_ah := (\<lambda>i. if 4 * i < unat (b_asize h) then NOBLOCK else b_ah h i)
                 (buddy_log2 (b_msize h) := 0)\<rparr>, m')"
  using assms by (simp add: init_avail_def binsert_def Let_def word_greater_zero_iff)

text \<open>
  \<^verbatim>\<open>buddy_init\<close> without emergency heap, when both areas lie in the region.
\<close>

lemma buddy_init_e0:
  assumes "b_mh h \<noteq> 0" "b_hs h \<noteq> 0" "b_e h = 0" "ucast (b_hs h div 2) \<noteq> (0::u32)"
    and "in_region h (b_shp (buddy_layout h)) (b_ssize (buddy_layout h))"
    and "in_region h (b_ahp (buddy_layout h)) (b_asize (buddy_layout h))"
  shows "\<exists>h' m'. buddy_init h m = Some (0, h', m')
      \<and> b_mh h' = b_mh h \<and> b_hs h' = b_hs h \<and> b_e h' = 0
      \<and> b_msize h' = ucast (b_hs h div 2)
      \<and> b_eh h' = b_mh h + ucast (b_msize h')
      \<and> b_AMAX h' = buddy_log2 (b_msize h')
      \<and> b_asize h' = of_nat ((b_AMAX h' + 1) * 4)
      \<and> b_ssize h' = (b_msize h' div 8 + 1) * 6 div 8
      \<and> b_esize h' = b_msize h' - (b_asize h' + b_ssize h')
      \<and> (\<forall>i. b_sh h' i = (if i < unat (b_ssize h') then 0 else b_sh h i))
      \<and> (\<forall>i. b_ah h' i = (if i = b_AMAX h' then 0
                           else if 4 * i < unat (b_asize h') then NOBLOCK else b_ah h i))"
proof -
  let ?h8 = "buddy_layout h"
  let ?h9 = "?h8\<lparr>b_sh := (\<lambda>i. if i < unat (b_ssize ?h8) then 0 else b_sh ?h8 i)\<rparr>"
  have r8: "in_region ?h8 p n = in_region h p n" for p n
    by (simp add: in_region_def buddy_layout_fields)
  have isz: "init_size ?h8 = Some ?h9" using assms(5) by (simp add: init_size_def r8)
  have nz: "b_msize ?h9 \<noteq> 0" using assms(4) by (simp add: buddy_layout_fields)
  have ir: "in_region ?h9 (b_ahp ?h9) (b_asize ?h9)" using assms(6) by (simp add: r8)
  obtain m' where ia: "init_avail ?h9 (memset m (b_mh ?h8) 0xff (ucast (b_msize ?h8)))
      = Some (?h9\<lparr>b_ah := (\<lambda>i. if 4 * i < unat (b_asize ?h9) then NOBLOCK else b_ah ?h9 i)
                 (buddy_log2 (b_msize ?h9) := 0)\<rparr>, m')"
    using init_avail_ok[OF nz ir] by blast
  show ?thesis unfolding buddy_init_def Let_def isz Option.bind.simps ia using assms(1-3)
    by (simp add: OK_def buddy_layout_fields cong: if_cong)
qed

lemma buddy_init_fields:
  assumes "buddy_init h m = Some (0, h', m')"
  shows "b_msize h' = ucast (b_hs h div 2) \<and> b_ssize h' = (b_msize h' div 8 + 1) * 6 div 8"
proof -
  have nz: "b_mh h \<noteq> 0 \<and> b_hs h \<noteq> 0" using assms by (auto simp: buddy_init_def split: if_splits)
  let ?h8 = "buddy_layout h"
  let ?m1 = "memset m (b_mh ?h8) 0xff (ucast (b_msize ?h8))"
  obtain h9 where isz: "init_size ?h8 = Some h9"
    using assms nz by (auto simp: buddy_init_def Let_def split: Option.bind_splits)
  obtain h10 m2 where ia: "init_avail h9 ?m1 = Some (h10, m2)"
    using assms nz by (auto simp: buddy_init_def Let_def isz split: Option.bind_splits)
  have f: "b_msize h10 = ucast (b_hs h div 2)" "b_ssize h10 = (ucast (b_hs h div 2) div 8 + 1) * 6 div 8"
    using init_avail_Some(1)[OF ia] init_size_Some(2)[OF isz] by (simp_all add: buddy_layout_fields)
  have "b_msize h' = b_msize h10 \<and> b_ssize h' = b_ssize h10"
    using assms nz by (auto simp: buddy_init_def Let_def isz ia split: if_splits prod.splits)
  then show ?thesis using f by simp
qed

lemma ssize_nat: "unat ((w div 8 + 1) * 6 div 8 :: u32) = (unat w div 8 + 1) * 6 div 8"
proof -
  have "unat w < 2 ^ 32" using unsigned_less[of w] by simp
  then have a: "unat w div 8 < 2 ^ 29" by simp
  have "unat (w div 8 + 1) = unat w div 8 + 1" using a by (simp add: unat_word_ariths unat_div)
  moreover have "(unat w div 8 + 1) * 6 < 2 ^ 32" using a by simp
  ultimately have "unat ((w div 8 + 1) * 6) = (unat w div 8 + 1) * 6" by (simp add: unat_word_ariths)
  then show ?thesis by (simp add: unat_div)
qed

lemma smoke_init: "\<exists>h' m'. buddy_init smoke_buddy zero_mem = Some (0, h', m')
    \<and> b_mh h' = 0x100000 \<and> b_e h' = 0 \<and> b_msize h' = 1048576 \<and> b_eh h' = 0x200000 \<and> b_AMAX h' = 20
    \<and> b_asize h' = 84 \<and> b_ssize h' = 98304 \<and> b_esize h' = 950188"
proof -
  have e: "(1048576 :: u32) = 2 ^ 20" by simp
  have l: "buddy_log2 1048576 = 20" unfolding e by (rule buddy_log2_pow2) simp
  have "b_mh smoke_buddy \<noteq> 0" "b_hs smoke_buddy \<noteq> 0" "b_e smoke_buddy = 0"
       "ucast (b_hs smoke_buddy div 2) \<noteq> (0::u32)"
       "in_region smoke_buddy (b_shp (buddy_layout smoke_buddy)) (b_ssize (buddy_layout smoke_buddy))"
       "in_region smoke_buddy (b_ahp (buddy_layout smoke_buddy)) (b_asize (buddy_layout smoke_buddy))"
    by (simp_all add: smoke_buddy_def in_region_def buddy_layout_fields l)
  from buddy_init_e0[OF this, of zero_mem] show ?thesis
    by (auto simp: smoke_buddy_def l)
qed

text \<open>
  On a region of 32 bytes \<^verbatim>\<open>buddy_init\<close> has no result: \<open>msize = 16\<close>,
  \<open>asize + ssize = 20 + 2\<close>, so \<^verbatim>\<open>esize\<close> wraps to \<open>2^32 - 6\<close> and both areas are placed
  about 4 GiB behind the region.
\<close>

lemma buddy_init_small_region: "buddy_init (smoke_buddy\<lparr>b_hs := 32\<rparr>) m = None"
proof -
  let ?h = "smoke_buddy\<lparr>b_hs := 32\<rparr>"
  have e: "(16 :: u32) = 2 ^ 4" by simp
  have l: "buddy_log2 16 = 4" unfolding e by (rule buddy_log2_pow2) simp
  have "b_shp (buddy_layout ?h) = 0x100000 + 16 + 0xFFFFFFFA + 20"
    by (simp add: buddy_layout_fields smoke_buddy_def l)
  then have "\<not> in_region (buddy_layout ?h) (b_shp (buddy_layout ?h)) (b_ssize (buddy_layout ?h))"
    by (simp add: in_region_def buddy_layout_fields(1,2) smoke_buddy_def)
  then have "init_size (buddy_layout ?h) = None" by (simp add: init_size_def)
  then show ?thesis by (simp add: buddy_init_def Let_def smoke_buddy_def)
qed

text \<open>
  After \<^verbatim>\<open>buddy_init\<close> returns 0, \<^verbatim>\<open>msize\<close> is the low 32 bits of \<open>hs / 2\<close> and \<^verbatim>\<open>ssize\<close>
  is \<open>((msize / 8 + 1) * 6) / 8\<close> rounded down, the integer division of the code.
\<close>

lemma buddy_init_ssize_floor:
  assumes "buddy_init h m = Some (0, h', m')"
  shows "b_msize h' = ucast (b_hs h div 2)
       \<and> unat (b_ssize h') = ((unat (b_msize h') div 8 + 1) * 6) div 8"
  using buddy_init_fields[OF assms] ssize_nat[of "b_msize h'"] by simp

text \<open>
  Claim C9 fails on the code.  The comment of \<^verbatim>\<open>buddy_init\<close> gives \<^verbatim>\<open>ssize\<close> as
  \<open>msize / 8 * 6 / 8\<close>, ``add one byte'', which for the heap of the smoke test
  (\<open>hs = 2^21\<close>, \<open>msize = 2^20\<close>) is 98305, the value of
  \<open>ceil(((msize / 8 + 1) * 6) / 8) = ceil(786438 / 8)\<close>.  The code adds the 1 before
  it multiplies and divides, and the integer division loses it: \<^verbatim>\<open>buddy_init\<close>
  returns 0 with \<^verbatim>\<open>ssize\<close> = 98304.  One byte is missing: for the last unit of the
  main heap, \<^verbatim>\<open>putsize\<close> and \<^verbatim>\<open>getsize\<close> access \<^verbatim>\<open>sh[y + 1]\<close> with
  \<open>y + 1 = ssize\<close>, the byte behind the size area.
\<close>

theorem buddy_init_ssize_not_ceil:
  "\<exists>h' m'. buddy_init smoke_buddy zero_mem = Some (0, h', m')
     \<and> unat (b_msize h') = 2 ^ 20
     \<and> unat (b_ssize h') = 98304
     \<and> ((unat (b_msize h') div 8 + 1) * 6 + 7) div 8 = 98305
     \<and> unat (block2size (b_msize h' - 8) * 6 div 8 + 1) = unat (b_ssize h')"
proof -
  obtain h' m' where i: "buddy_init smoke_buddy zero_mem = Some (0, h', m')"
      and f: "b_msize h' = 1048576" "b_ssize h' = 98304"
    using smoke_init by blast
  have "unat (block2size (b_msize h' - 8) * 6 div 8 + 1) = unat (b_ssize h')"
    unfolding f by (simp add: block2size_def drop_bit_eq_div)
  then show ?thesis using i f by auto
qed

section \<open>\<^verbatim>\<open>buddy_free_block\<close> and \<^verbatim>\<open>ffit_free_block\<close> on pointers outside the heap\<close>

text \<open>
  Claim C10.  With the emergency flag \<open>e = 0\<close>, \<^verbatim>\<open>buddy_free_block\<close> on a pointer of
  the secondary range \<open>[eh, mh + msize + esize)\<close> returns 4 and leaves the descriptor
  (with the size area and the avail table) and the store unchanged.
\<close>

theorem buddy_free_secondary_without_emergency:
  assumes "b_e h = 0" and "b_eh h \<le> ptr" and "ptr < b_mh h + ucast (b_msize h) + ucast (b_esize h)"
  shows "buddy_free_block h m ptr = Some (4, h, m)"
  using assms by (simp add: buddy_free_block_def NOTFOUND_def)

theorem buddy_free_secondary_without_emergency_witness:
  "\<exists>h m. buddy_init smoke_buddy zero_mem = Some (0, h, m)
     \<and> b_e h = 0 \<and> b_eh h \<le> 0x200010
     \<and> 0x200010 < b_mh h + ucast (b_msize h) + ucast (b_esize h)
     \<and> buddy_free_block h m 0x200010 = Some (4, h, m)"
proof -
  obtain h m where i: "buddy_init smoke_buddy zero_mem = Some (0, h, m)"
    and f: "b_mh h = 0x100000" "b_e h = 0" "b_msize h = 1048576" "b_eh h = 0x200000"
           "b_esize h = 950188"
    using smoke_init by blast
  have a: "b_eh h \<le> 0x200010" using f by simp
  have b: "0x200010 < b_mh h + ucast (b_msize h) + ucast (b_esize h)" using f by simp
  show ?thesis using buddy_free_secondary_without_emergency[OF f(2) a b, of m] i f(2) a b by blast
qed

text \<open>
  Claim C3 fails on the code for the first-fit arena.  On the freshly initialised
  1 MiB arena of the smoke test, \<^verbatim>\<open>ffit_free_block\<close> returns 0 (OK), not 4, for the
  pointer \<open>mh + hs\<close> just behind the region and for a pointer far below \<open>mh\<close>: the
  range check skips the call of \<^verbatim>\<open>freeblock\<close> and \<open>rc\<close> keeps its initial value 0.
\<close>

theorem ffit_free_outside_returns_ok:
  "\<exists>h m. ffit_init smoke_ffit zero_mem = (0, h, m)
     \<and> f_mh h = 0x100000 \<and> f_hs h = 0x100000
     \<and> ffit_free_block h m 0x200000 = Some (0, h, m)
     \<and> ffit_free_block h m 0x1000 = Some (0, h, m)"
  by (simp add: ffit_init_def smoke_ffit_def Let_def ffit_free_block_def)

section \<open>Runs of the first-fit arena\<close>

text \<open>The definitions of \<^verbatim>\<open>ffit.c\<close>, for evaluating a run on a given arena.\<close>

lemmas ffit_eval =
  ffit_init_def smoke_ffit_def tiny_ffit_def zero_mem_def ffit_get_block_def ffit_effsize_def
  MINSIZE_FF_def ffit_getblock_def ffit_getblock_loop.simps ffit_block2ptr_def
  ffit_ptr2block_def NOBLOCK_def ffit_getsize_def setsize_def gettag_def sze_def nxt_def
  prv_def set_sze_def set_nxt_def set_prv_def read32_def write32_def untag_def tag_def
  tagged_def breplace_def ffit_bremove_def binssort_def binssort_loop.simps ffit_binsert_def
  bfind_def bfind_loop.simps ffit_freeblock_def ffit_free_block_def ffit_extend_block_def
  memcpy_def memset_def NOTFOUND_def Let_def

text \<open>
  Claim C1 fails on the code.  On the freshly initialised 1 MiB arena of the smoke
  test, \<^verbatim>\<open>ffit_get_block\<close> with \<open>n = 2^32 + 8\<close> returns the non-null pointer \<open>mh + 4\<close>
  (the cast \<^verbatim>\<open>(uint32_t)sz\<close> keeps 8 of the request, so a block of 32 bytes is
  taken), and the \<open>n\<close> bytes from there end far behind \<open>mh + hs\<close>.
\<close>

theorem ffit_get_block_truncates_request:
  "(case ffit_init smoke_ffit zero_mem of (rc, h, m) \<Rightarrow>
      (case ffit_get_block h m (2 ^ 32 + 8) of
         None \<Rightarrow> False
       | Some (p, h', m') \<Rightarrow>
           rc = 0 \<and> p = 0x100004 \<and> p \<noteq> 0 \<and> f_mh h' = 0x100000 \<and> f_hs h' = 0x100000
         \<and> unat (f_mh h') + unat (f_hs h') < unat p + unat (2 ^ 32 + 8 :: u64)))"
  by (simp add: ffit_eval)

text \<open>
  Claim C2 fails on the code for the first-fit arena.  On the arena of the smoke
  test: \<open>a = get(8)\<close>, \<open>b = get(8)\<close>, \<open>free(a)\<close> returns 0, \<open>free(b)\<close> returns 0 (it
  merges \<open>b\<close> into its free previous neighbour \<open>a\<close>), and a second \<open>free(b)\<close> returns
  \<open>-1\<close>, not 4: the merge untags the merged block, the header of \<open>b\<close> keeps its tag.
\<close>

theorem ffit_double_free_after_merge:
  "(case ffit_init smoke_ffit zero_mem of (rc, h, m) \<Rightarrow>
    (case ffit_get_block h m 8 of None \<Rightarrow> False | Some (a, h1, m1) \<Rightarrow>
    (case ffit_get_block h1 m1 8 of None \<Rightarrow> False | Some (b, h2, m2) \<Rightarrow>
    (case ffit_free_block h2 m2 a of None \<Rightarrow> False | Some (r1, h3, m3) \<Rightarrow>
    (case ffit_free_block h3 m3 b of None \<Rightarrow> False | Some (r2, h4, m4) \<Rightarrow>
    (case ffit_free_block h4 m4 b of None \<Rightarrow> False | Some (r3, h5, m5) \<Rightarrow>
       rc = 0 \<and> a = 0x100004 \<and> b = 0x100024 \<and> r1 = 0 \<and> r2 = 0 \<and> r3 = - 1
     \<and> ffit_getsize (sze m4 0x100000) = 0x100000 \<and> gettag (sze m4 0x100020) = 1))))))"
  by (simp add: ffit_eval)

text \<open>
  Claim C4 fails on the code for the first-fit arena.  On the arena of the smoke
  test: \<open>p = get(8)\<close>, the caller fills the 8 bytes at \<open>p\<close> with \<open>0xAA\<close>, and
  \<open>extend(p, 100)\<close> returns \<open>q \<noteq> p\<close> with \<open>rc = 0\<close>.  The first byte at \<open>q\<close> is \<open>0xFF\<close>:
  \<^verbatim>\<open>memcpy((char*)ret+4, (char*)ptr+4, k)\<close> skips the first four bytes of the
  payload.
\<close>

theorem ffit_extend_loses_content:
  "(case ffit_init smoke_ffit zero_mem of (rc, h, m) \<Rightarrow>
    (case ffit_get_block h m 8 of None \<Rightarrow> False | Some (p, h1, m1) \<Rightarrow>
    (case ffit_extend_block h1 (memset m1 p 0xAA 8) p 100 of
       None \<Rightarrow> False
     | Some (q, rc1, h2, m2) \<Rightarrow>
         rc = 0 \<and> p = 0x100004 \<and> q = 0x100024 \<and> rc1 = 0
       \<and> memset m1 p 0xAA 8 p = 0xAA \<and> m2 q = 0xFF)))"
  by (simp add: ffit_eval)

text \<open>
  Claim C6 fails on the code for the first-fit arena.  On an arena of 50 bytes,
  \<^verbatim>\<open>get(20)\<close> hands out the whole region as one block of 50 bytes.  \<^verbatim>\<open>extend(p, 45)\<close>
  has the effective size \<open>45 + 5 = 50\<close>, the current size of the block, and returns
  null, not \<open>p\<close>: \<^verbatim>\<open>ffit_extend_block\<close> tests \<^verbatim>\<open>s < h->hs\<close> before it compares the
  sizes, while \<^verbatim>\<open>ffit.h\<close> promises that \<^verbatim>\<open>ptr\<close> is returned when \<^verbatim>\<open>sz\<close> is equal to the
  current size of the block.
\<close>

theorem ffit_extend_equal_size_returns_null:
  "(case ffit_init tiny_ffit zero_mem of (rc, h, m) \<Rightarrow>
     (case ffit_get_block h m 20 of None \<Rightarrow> False
      | Some (p, h1, m1) \<Rightarrow>
        (case ffit_extend_block h1 m1 p 45 of None \<Rightarrow> False
         | Some (q, rc1, h3, m3) \<Rightarrow>
             rc = 0 \<and> p = 0x100004
             \<and> ffit_getsize (sze m1 (ffit_block2ptr (f_mh h1) (ffit_ptr2block (f_mh h1) (p - 4)))) = 50
             \<and> ffit_effsize 45 = 50 \<and> q = 0)))"
  by (simp add: ffit_eval)

section \<open>Blocks in memory\<close>

lemma push_bit_1_u32: "push_bit k (1 :: u32) = 2 ^ k"
  by (simp add: push_bit_eq_mult)

lemma drop_bit_2p: assumes "2 \<le> L" "L < 32" shows "drop_bit 2 ((2 :: u32) ^ L) = 2 ^ (L - 2)"
proof -
  have "L = (L - 2) + 2" using assms by simp
  then have "(2 :: u32) ^ L = 2 ^ ((L - 2) + 2)" by (rule arg_cong)
  also have "\<dots> = 2 ^ (L - 2) * 2 ^ 2" by (rule power_add)
  finally have "(2 :: u32) ^ L = push_bit 2 (2 ^ (L - 2))"
    by (simp add: push_bit_eq_mult)
  moreover have "drop_bit 2 (push_bit 2 ((2 :: u32) ^ (L - 2))) = 2 ^ (L - 2)"
  proof -
    have "(2::nat) ^ (L - 2) < 2 ^ 30" using assms by (intro power_strict_increasing) auto
    then have "unat ((2 :: u32) ^ (L - 2)) < 2 ^ 30" using assms by (simp add: unat_2p32)
    then have "unat (push_bit 2 ((2 :: u32) ^ (L - 2))) = 4 * unat ((2 :: u32) ^ (L - 2))"
      by (simp add: push_bit_eq_mult unat_word_ariths)
    then have "unat (drop_bit 2 (push_bit 2 ((2 :: u32) ^ (L - 2)))) = unat ((2 :: u32) ^ (L - 2))"
      by (simp add: drop_bit_eq_div unat_div)
    then show ?thesis by (simp add: word_unat_eq_iff)
  qed
  ultimately show ?thesis by simp
qed

lemma putsize_fields: "b_msize (putsize h i c) = b_msize h" "b_ah (putsize h i c) = b_ah h"
  by (simp_all add: putsize_def Let_def)

lemma erasesize_fields: "b_msize (erasesize h i) = b_msize h" "b_ah (erasesize h i) = b_ah h"
  by (simp_all add: erasesize_def Let_def)

lemma far_addr:
  fixes a b :: u64
  assumes "far (a - b)"
  shows "a \<noteq> b"
    "a \<noteq> b + 1"
    "a \<noteq> b + 2"
    "a \<noteq> b + 3"
    "a + 1 \<noteq> b"
    "a + 1 \<noteq> b + 1"
    "a + 1 \<noteq> b + 2"
    "a + 1 \<noteq> b + 3"
    "a + 2 \<noteq> b"
    "a + 2 \<noteq> b + 1"
    "a + 2 \<noteq> b + 2"
    "a + 2 \<noteq> b + 3"
    "a + 3 \<noteq> b"
    "a + 3 \<noteq> b + 1"
    "a + 3 \<noteq> b + 2"
    "a + 3 \<noteq> b + 3"
proof -
  have d: "a - b \<noteq> 0" "a - b \<noteq> 1" "a - b \<noteq> 2" "a - b \<noteq> 3"
          "a - b \<noteq> - 1" "a - b \<noteq> - 2" "a - b \<noteq> - 3"
    using assms unfolding far_def
    by (auto simp: unsigned_minus_1_eq_mask mask_eq_exp_minus_1)
  have e: "a = b \<longleftrightarrow> a - b = 0"
    "a = b + 1 \<longleftrightarrow> a - b = 1"
    "a = b + 2 \<longleftrightarrow> a - b = 2"
    "a = b + 3 \<longleftrightarrow> a - b = 3"
    "a + 1 = b \<longleftrightarrow> a - b = - 1"
    "a + 1 = b + 1 \<longleftrightarrow> a - b = 0"
    "a + 1 = b + 2 \<longleftrightarrow> a - b = 1"
    "a + 1 = b + 3 \<longleftrightarrow> a - b = 2"
    "a + 2 = b \<longleftrightarrow> a - b = - 2"
    "a + 2 = b + 1 \<longleftrightarrow> a - b = - 1"
    "a + 2 = b + 2 \<longleftrightarrow> a - b = 0"
    "a + 2 = b + 3 \<longleftrightarrow> a - b = 1"
    "a + 3 = b \<longleftrightarrow> a - b = - 3"
    "a + 3 = b + 1 \<longleftrightarrow> a - b = - 2"
    "a + 3 = b + 2 \<longleftrightarrow> a - b = - 1"
    "a + 3 = b + 3 \<longleftrightarrow> a - b = 0"
    by (auto simp: algebra_simps)
  show "a \<noteq> b"
    "a \<noteq> b + 1"
    "a \<noteq> b + 2"
    "a \<noteq> b + 3"
    "a + 1 \<noteq> b"
    "a + 1 \<noteq> b + 1"
    "a + 1 \<noteq> b + 2"
    "a + 1 \<noteq> b + 3"
    "a + 2 \<noteq> b"
    "a + 2 \<noteq> b + 1"
    "a + 2 \<noteq> b + 2"
    "a + 2 \<noteq> b + 3"
    "a + 3 \<noteq> b"
    "a + 3 \<noteq> b + 1"
    "a + 3 \<noteq> b + 2"
    "a + 3 \<noteq> b + 3"
    unfolding e using d by simp_all
qed

lemma self_addr:
  fixes a :: u64
  shows "a + 1 \<noteq> a" "a + 2 \<noteq> a" "a + 3 \<noteq> a" "a + 2 \<noteq> a + 1" "a + 3 \<noteq> a + 1" "a + 3 \<noteq> a + 2"
    "a \<noteq> a + 1" "a \<noteq> a + 2" "a \<noteq> a + 3" "a + 1 \<noteq> a + 2" "a + 1 \<noteq> a + 3" "a + 2 \<noteq> a + 3"
  by simp_all

lemma cat4:
  fixes v :: u32
  shows "ucast (ucast v :: u8) OR push_bit 8 (ucast (ucast (drop_bit 8 v) :: u8))
       OR push_bit 16 (ucast (ucast (drop_bit 16 v) :: u8))
       OR push_bit 24 (ucast (ucast (drop_bit 24 v) :: u8)) = v"
proof (rule bit_eqI)
  fix n assume "possible_bit TYPE(u32) n"
  then have n: "n < 32" by simp
  consider "n < 8" | "8 \<le> n \<and> n < 16" | "16 \<le> n \<and> n < 24" | "24 \<le> n \<and> n < 32"
    using n by linarith
  then show "bit (ucast (ucast v :: u8) OR push_bit 8 (ucast (ucast (drop_bit 8 v) :: u8))
       OR push_bit 16 (ucast (ucast (drop_bit 16 v) :: u8))
       OR push_bit 24 (ucast (ucast (drop_bit 24 v) :: u8)) :: u32) n = bit v n"
    by cases (auto simp: bit_simps)
qed

lemma read32_write32_same: "read32 (write32 m a v) a = v"
  unfolding read32_def write32_def by (simp add: self_addr cat4)

lemma read32_write32_far: assumes "far (a - b)" shows "read32 (write32 m a v) b = read32 m b"
  unfolding read32_def write32_def using far_addr[OF assms] by simp

lemma read32_memset_in:
  assumes "4 \<le> unat n" shows "read32 (memset m p 0xff n) p = NOBLOCK"
proof -
  have "(0::u64) < n" "1 < n" "2 < n" "3 < n" using assms by (simp_all add: word_less_nat_alt)
  then show ?thesis
    unfolding read32_def memset_def NOBLOCK_def by simp
qed

lemma unat_ucast_32_64: "unat (ucast (w :: u32) :: u64) = unat w"
proof -
  have "unat w < 2 ^ 32" using unsigned_less[of w] by simp
  then have "unat w < 2 ^ 64" by simp
  then show ?thesis by (simp add: unsigned_ucast_eq take_bit_nat_eq_self)
qed

lemma pow2_ne_NOBLOCK: "(2 :: u32) ^ k \<noteq> NOBLOCK"
proof (cases "k < 32")
  case True
  have "unat ((2 :: u32) ^ k) = 2 ^ k" using True by (rule unat_2p32)
  moreover have "unat NOBLOCK = 2 ^ 32 - 1" by (simp add: NOBLOCK_def)
  moreover have "(2 :: nat) ^ k \<noteq> 2 ^ 32 - 1"
  proof
    assume "(2 :: nat) ^ k = 2 ^ 32 - 1"
    moreover have "odd ((2 :: nat) ^ 32 - 1)" by simp
    ultimately have "odd ((2 :: nat) ^ k)" by simp
    then have "k = 0" by (cases k) auto
    then show False using \<open>(2 :: nat) ^ k = 2 ^ 32 - 1\<close> by simp
  qed
  ultimately show ?thesis by metis
next
  case False
  then have e: "(2 :: u32) ^ k = 0" by (simp add: exp_eq_zero_iff)
  show ?thesis unfolding e by (simp add: NOBLOCK_def)
qed

lemma block2ptr_0: "block2ptr h 0 = b_mh h"
  by (simp add: block2ptr_def NOBLOCK_def)

lemma block2ptr_pow2: "block2ptr h (2 ^ k) = ucast ((2 :: u32) ^ k) + b_mh h"
  by (simp add: block2ptr_def pow2_ne_NOBLOCK)

lemma far_4: "far 4" by (simp add: far_def)

lemma far_pow2: assumes "3 \<le> k" "k < 32" shows "far (ucast ((2 :: u32) ^ k) + 4)"
proof -
  have u: "unat (ucast ((2 :: u32) ^ k) :: u64) = 2 ^ k"
    using assms(2) by (simp add: unat_2p32 unat_ucast_32_64)
  have "(2 :: nat) ^ k < 2 ^ 32" using assms(2) by (intro power_strict_increasing) auto
  then have b: "(2 :: nat) ^ k + 4 < 2 ^ 64 - 4" by simp
  then have "unat (ucast ((2 :: u32) ^ k) + 4 :: u64) = 2 ^ k + 4"
    using u by (simp add: unat_word_ariths)
  then show ?thesis using b by (simp add: far_def)
qed

lemma binsert_Some:
  assumes "add < b_msize h"
  shows "binsert h m add sz = Some (h\<lparr>b_ah := (b_ah h)(sz := add)\<rparr>, block_insert h m (b_ah h sz) add)"
  using assms by (simp add: binsert_def Let_def)

lemma bremove_head:
  assumes "b_ah h sz = add" and "add \<noteq> NOBLOCK"
    and "bl_nxt m (block2ptr h add) < b_msize h \<or> bl_nxt m (block2ptr h add) = NOBLOCK"
  shows "bremove h m add sz =
           Some (h\<lparr>b_ah := (b_ah h)(sz := bl_nxt m (block2ptr h add))\<rparr>, block_clean h m add)"
  using assms by (auto simp: bremove_def block_remove_def Let_def)

lemma block_insert_head0:
  assumes "3 \<le> k" "k < 32"
  shows "bl_nxt (block_insert h m (2 ^ k) 0) (b_mh h) = 2 ^ k"
proof -
  have f1: "far (b_mh h + 4 - b_mh h)" using far_4 by simp
  have f2: "far (ucast ((2 :: u32) ^ k) + b_mh h + 4 - b_mh h)" using far_pow2[OF assms] by simp
  show ?thesis
    by (simp add: block_insert_def Let_def block2ptr_0 block2ptr_pow2 pow2_ne_NOBLOCK
        bl_nxt_def set_bl_nxt_def set_bl_prv_def read32_write32_same
        read32_write32_far[OF f1] read32_write32_far[OF f2])
qed

lemma block_insert_mh: "b_mh (h\<lparr>b_ah := x\<rparr>) = b_mh h" by simp

text \<open>bsplit of the block at address 0, the head of list i\<close>
lemma bsplit_head0:
  assumes "4 \<le> i" "i \<le> 31" and "b_ah h i = 0"
    and "bl_nxt m (b_mh h) < b_msize h \<or> bl_nxt m (b_mh h) = NOBLOCK"
    and "2 ^ i \<le> unat (b_msize h)"
  shows "\<exists>ah' m'. bsplit h m 0 i = Some (h\<lparr>b_ah := ah'\<rparr>, m') \<and> ah' (i - 1) = 0
           \<and> bl_nxt m' (b_mh h) = 2 ^ (i - 1) \<and> (\<forall>j. j < i - 1 \<longrightarrow> ah' j = b_ah h j)"
proof -
  define k where "k = i - 1"
  have k: "3 \<le> k" "k < 32" "k \<noteq> i" using assms(1,2) by (simp_all add: k_def)
  have "(2 :: nat) ^ k < 2 ^ i" using assms(1) unfolding k_def by (intro power_strict_increasing) auto
  moreover have "unat ((2 :: u32) ^ k) = 2 ^ k" using k(2) by (rule unat_2p32)
  ultimately have "unat ((2 :: u32) ^ k) < unat (b_msize h)" using assms(5) by linarith
  then have lt: "(2 :: u32) ^ k < b_msize h" by (simp add: word_less_nat_alt)
  then have pos: "0 < b_msize h" by (auto simp: word_greater_zero_iff)
  have z: "(0 :: u32) \<noteq> NOBLOCK" by (simp add: NOBLOCK_def)
  define h1 where "h1 = h\<lparr>b_ah := (b_ah h)(i := bl_nxt m (block2ptr h 0))\<rparr>"
  define m1 where "m1 = block_clean h m 0"
  have r: "bremove h m 0 i = Some (h1, m1)"
    unfolding h1_def m1_def using assms(3,4) z by (intro bremove_head) (simp_all add: block2ptr_0)
  define h2 where "h2 = h1\<lparr>b_ah := (b_ah h1)(k := 0 + 2 ^ k)\<rparr>"
  define m2 where "m2 = block_insert h1 m1 (b_ah h1 k) (0 + 2 ^ k)"
  have i1: "binsert h1 m1 (0 + 2 ^ k) k = Some (h2, m2)"
    unfolding h2_def m2_def using lt by (intro binsert_Some) (simp add: h1_def)
  define h3 where "h3 = h2\<lparr>b_ah := (b_ah h2)(k := 0)\<rparr>"
  define m3 where "m3 = block_insert h2 m2 (b_ah h2 k) 0"
  have i2: "binsert h2 m2 0 k = Some (h3, m3)"
    unfolding h3_def m3_def using pos by (intro binsert_Some) (simp add: h2_def h1_def)
  have km: "i - Suc 0 = k" by (simp add: k_def)
  have i1': "binsert h1 m1 (2 ^ k) k = Some (h2, m2)" using i1 by simp
  have bs: "bsplit h m 0 i = Some (h3, m3)"
    by (simp add: bsplit_def r Let_def push_bit_1_u32 km i1' i2)
  have a: "b_ah h2 k = 2 ^ k" by (simp add: h2_def)
  have "bl_nxt m3 (b_mh h2) = 2 ^ k" unfolding m3_def a using k(1,2) by (rule block_insert_head0)
  then have n: "bl_nxt m3 (b_mh h) = 2 ^ k" by (simp add: h2_def h1_def)
  have e: "h3 = h\<lparr>b_ah := b_ah h3\<rparr>" by (simp add: h3_def h2_def h1_def)
  have "b_ah h3 k = 0" by (simp add: h3_def)
  moreover have "\<forall>j. j < k \<longrightarrow> b_ah h3 j = b_ah h j"
  proof (intro allI impI)
    fix j assume "j < k"
    then have "j \<noteq> k" "j \<noteq> i" using assms(1) by (simp_all add: k_def)
    then show "b_ah h3 j = b_ah h j" by (simp add: h3_def h2_def h1_def)
  qed
  ultimately show ?thesis using bs n e unfolding k_def by metis
qed

section \<open>\<^verbatim>\<open>buddy_get_block\<close> on a fresh arena\<close>

lemma getblock_split_head0:
  assumes "s < i" "3 \<le> s" "i \<le> 31" and "b_ah h i = 0"
    and "bl_nxt m (b_mh h) < b_msize h \<or> bl_nxt m (b_mh h) = NOBLOCK"
    and "2 ^ i \<le> unat (b_msize h)"
  shows "\<exists>ah' m'. getblock_split h m i s b = Some (s, 0, h\<lparr>b_ah := ah'\<rparr>, m') \<and> ah' s = 0
           \<and> bl_nxt m' (b_mh h) = 2 ^ s \<and> (\<forall>j. j < s \<longrightarrow> ah' j = b_ah h j)"
  using assms
proof (induction "i - s" arbitrary: i h m b)
  case 0
  then show ?case by simp
next
  case (Suc n)
  have i4: "4 \<le> i" using Suc.prems(1,2) by simp
  have z: "(0 :: u32) \<noteq> NOBLOCK" by (simp add: NOBLOCK_def)
  obtain ah1 m1 where bs: "bsplit h m 0 i = Some (h\<lparr>b_ah := ah1\<rparr>, m1)" and a1: "ah1 (i - 1) = 0"
      and n1: "bl_nxt m1 (b_mh h) = 2 ^ (i - 1)" and u1: "\<forall>j. j < i - 1 \<longrightarrow> ah1 j = b_ah h j"
    using bsplit_head0[OF i4 Suc.prems(3,4,5,6)] by blast
  let ?h1 = "h\<lparr>b_ah := ah1\<rparr>"
  have step: "getblock_split h m i s b = getblock_split ?h1 m1 (i - 1) s 0"
    by (subst getblock_split.simps) (simp add: Suc.prems(1,4) z bs)
  show ?case
  proof (cases "i - 1 = s")
    case True
    have "getblock_split ?h1 m1 s s 0 = Some (s, 0, ?h1, m1)"
      by (subst getblock_split.simps) simp
    then have "getblock_split ?h1 m1 (i - 1) s 0 = Some (s, 0, ?h1, m1)" unfolding True .
    then show ?thesis using step a1 n1 u1 True by auto
  next
    case False
    then have lt: "s < i - 1" using Suc.prems(1) by simp
    have ns: "n = (i - 1) - s" using Suc.hyps(2) by simp
    have p1: "(2 :: nat) ^ (i - 1) < 2 ^ i" using i4 by (intro power_strict_increasing) auto
    have u: "unat ((2 :: u32) ^ (i - 1)) = 2 ^ (i - 1)" using Suc.prems(3) by (intro unat_2p32) simp
    have "unat ((2 :: u32) ^ (i - 1)) < unat (b_msize h)" using p1 u Suc.prems(6) by linarith
    then have "(2 :: u32) ^ (i - 1) < b_msize h" by (simp add: word_less_nat_alt)
    then have c5: "bl_nxt m1 (b_mh ?h1) < b_msize ?h1 \<or> bl_nxt m1 (b_mh ?h1) = NOBLOCK"
      using n1 by simp
    have "2 ^ (i - 1) \<le> unat (b_msize h)" using p1 Suc.prems(6) by linarith
    then have c6: "2 ^ (i - 1) \<le> unat (b_msize ?h1)" by simp
    have c3: "i - 1 \<le> 31" using Suc.prems(3) by simp
    have c4: "b_ah ?h1 (i - 1) = 0" using a1 by simp
    from Suc.hyps(1)[OF ns lt Suc.prems(2) c3 c4 c5 c6, of 0]
    obtain ah2 m2 where "getblock_split ?h1 m1 (i - 1) s 0 = Some (s, 0, ?h1\<lparr>b_ah := ah2\<rparr>, m2)"
       "ah2 s = 0" "bl_nxt m2 (b_mh ?h1) = 2 ^ s" "\<forall>j. j < s \<longrightarrow> ah2 j = b_ah ?h1 j" by blast
    moreover have "\<forall>j. j < s \<longrightarrow> b_ah ?h1 j = b_ah h j" using u1 lt by simp
    ultimately show ?thesis using step by auto
  qed
qed

lemma getblock_scan_fresh:
  assumes "k \<le> b_AMAX h" and "\<forall>i. k \<le> i \<and> i < b_AMAX h \<longrightarrow> b_ah h i = NOBLOCK"
    and "b_ah h (b_AMAX h) \<noteq> NOBLOCK"
  shows "getblock_scan h k = (b_AMAX h, b_ah h (b_AMAX h))"
  using assms
proof (induction "b_AMAX h - k" arbitrary: k)
  case 0
  then have "k = b_AMAX h" by simp
  then show ?case using "0.prems"(3) by (subst getblock_scan.simps) simp
next
  case (Suc n)
  then have lt: "k < b_AMAX h" by simp
  then have "b_ah h k = NOBLOCK" using Suc.prems(2) by simp
  then have "getblock_scan h k = getblock_scan h (k + 1)" using lt
    by (subst getblock_scan.simps) simp
  moreover have "getblock_scan h (k + 1) = (b_AMAX h, b_ah h (b_AMAX h))"
    using Suc.hyps(2) lt Suc.prems(2,3) by (intro Suc.hyps(1)) auto
  ultimately show ?case by simp
qed

lemma getsize_ah: "getsize (h\<lparr>b_ah := x\<rparr>) i = getsize h i"
  by (simp add: getsize_def)

lemma putsize_mh: "b_mh (putsize h i c) = b_mh h"
  by (simp add: putsize_def Let_def)

lemma block2size_0: "block2size 0 = 0" by (simp add: block2size_def)

lemma getblock_fresh:
  assumes "3 \<le> k" "k < A" "A \<le> 31" and "b_AMAX h = A" "b_msize h = 2 ^ A"
    and "\<forall>i. i < A \<longrightarrow> b_ah h i = NOBLOCK" and "b_ah h A = 0"
    and "bl_nxt m (b_mh h) = NOBLOCK" and "getsize h 0 = 0"
  shows "\<exists>ah' m'. getblock h m (2 ^ k) = Some (0, putsize (h\<lparr>b_ah := ah'\<rparr>) 0 (of_nat k), m')
           \<and> (\<forall>j. j < k \<longrightarrow> ah' j = NOBLOCK)"
proof -
  have z: "(0 :: u32) \<noteq> NOBLOCK" by (simp add: NOBLOCK_def)
  have l: "buddy_log2 (2 ^ k) = k" using assms(2,3) by (intro buddy_log2_pow2) simp
  have sc: "getblock_scan h k = (A, 0)"
    using getblock_scan_fresh[of k h] assms(2,4,6,7) z by simp
  have uA: "unat ((2 :: u32) ^ A) = 2 ^ A" using assms(3) by (intro unat_2p32) simp
  have c6: "2 ^ A \<le> unat (b_msize h)" using uA assms(5) by simp
  obtain ah1 m1 where sp: "getblock_split h m A k 0 = Some (k, 0, h\<lparr>b_ah := ah1\<rparr>, m1)"
      and a1: "ah1 k = 0" and n1: "bl_nxt m1 (b_mh h) = 2 ^ k"
      and u1: "\<forall>j. j < k \<longrightarrow> ah1 j = b_ah h j"
    using getblock_split_head0[OF assms(2,1,3,7) _ c6, of m 0] assms(8) by blast
  let ?h1 = "h\<lparr>b_ah := ah1\<rparr>"
  have "(2 :: nat) ^ k < 2 ^ A" using assms(2) by (intro power_strict_increasing) auto
  moreover have "unat ((2 :: u32) ^ k) = 2 ^ k" using assms(2,3) by (intro unat_2p32) simp
  ultimately have "unat ((2 :: u32) ^ k) < unat (b_msize h)" using c6 by linarith
  then have lt: "(2 :: u32) ^ k < b_msize h" by (simp add: word_less_nat_alt)
  have br: "bremove ?h1 m1 0 k =
      Some (?h1\<lparr>b_ah := (b_ah ?h1)(k := bl_nxt m1 (block2ptr ?h1 0))\<rparr>, block_clean ?h1 m1 0)"
    using a1 z n1 lt by (intro bremove_head) (simp_all add: block2ptr_0)
  have "getblock h m (2 ^ k) = Some (0, putsize
      (h\<lparr>b_ah := ah1(k := bl_nxt m1 (block2ptr ?h1 0))\<rparr>) 0 (of_nat k), block_clean ?h1 m1 0)"
    by (simp add: getblock_def Let_def l sc assms(4) sp z block2size_0 getsize_ah assms(9) br)
  moreover have "\<forall>j. j < k \<longrightarrow> (ah1(k := bl_nxt m1 (block2ptr ?h1 0))) j = NOBLOCK"
    using u1 assms(2,6) by simp
  ultimately show ?thesis by blast
qed

lemma half_pow2:
  assumes "A \<le> 31"
  shows "(ucast ((2 :: u64) ^ (A + 1) div 2) :: u32) = 2 ^ A"
proof -
  have "(2 :: u64) ^ (A + 1) div 2 = drop_bit 1 (push_bit (A + 1) 1)"
    by (simp add: drop_bit_eq_div push_bit_eq_mult)
  also have "\<dots> = push_bit A 1"
    using assms by (intro bit_eqI) (auto simp: bit_simps)
  finally have e: "(2 :: u64) ^ (A + 1) div 2 = push_bit A 1" .
  have "(ucast (push_bit A (1 :: u64)) :: u32) = push_bit A 1"
    by (rule bit_eqI) (auto simp: bit_simps)
  then show ?thesis unfolding e by (simp add: push_bit_eq_mult)
qed

lemma getsize_0: assumes "b_sh h 0 = 0" "b_sh h 1 = 0" shows "getsize h 0 = 0"
  using assms by (simp add: getsize_def Let_def modpow2_def)

lemma ssize_ge2: "2 \<le> (x :: nat) \<Longrightarrow> 2 \<le> (x + 1) * 6 div 8"
  by presburger

lemma six_eighths: "(x :: nat) * 6 div 8 \<le> x"
  by presburger

lemma unat_2p64: assumes "k < 64" shows "unat ((2 :: u64) ^ k) = 2 ^ k"
proof -
  have "(2 :: u64) ^ k = of_nat (2 ^ k)" by simp
  moreover have "(2 :: nat) ^ k < 2 ^ 64" using assms by (intro power_strict_increasing) auto
  ultimately show ?thesis by (simp only: unat_of_nat) simp
qed

lemma bookkeeping_fits_aux: "2 \<le> n \<Longrightarrow> 4 * n + 17 \<le> 7 * 2 ^ n"
proof (induction n rule: nat_induct_at_least)
  case base
  show ?case by simp
next
  case (Suc n)
  then show ?case by simp
qed

text \<open>For \<open>msize = 2 ^ A\<close> with \<open>A \<ge> 5\<close> the avail table and the size area fit into \<open>msize\<close> bytes.\<close>

lemma bookkeeping_fits:
  assumes "5 \<le> A"
  shows "(A + 1) * 4 + ((2 :: nat) ^ A div 8 + 1) * 6 div 8 \<le> 2 ^ A"
proof -
  define n where "n = A - 3"
  define x :: nat where "x = 2 ^ n"
  have A: "A = n + 3" and n: "2 \<le> n" using assms by (simp_all add: n_def)
  have p: "(2 :: nat) ^ A = 8 * x" unfolding A x_def by (simp add: power_add)
  have d: "8 * x div 8 = x" by simp
  define y where "y = (x + 1) * 6 div 8"
  have a: "y \<le> x + 1" unfolding y_def by (rule six_eighths)
  have b: "4 * n + 17 \<le> 7 * x" unfolding x_def using n by (rule bookkeeping_fits_aux)
  have "(A + 1) * 4 + y \<le> 8 * x" using a b A by simp
  then show ?thesis unfolding p d y_def .
qed

text \<open>The layout of a region of \<open>2 ^ (A + 1)\<close> bytes, \<open>5 \<le> A \<le> 31\<close>, that lies in the address space.\<close>

lemma fresh_layout:
  assumes "b_hs h = 2 ^ (A + 1)" "5 \<le> A" "A \<le> 31" and "unat (b_mh h) + 2 ^ (A + 1) \<le> 2 ^ 64"
  shows "in_region h (b_shp (buddy_layout h)) (b_ssize (buddy_layout h))"
    and "in_region h (b_ahp (buddy_layout h)) (b_asize (buddy_layout h))"
proof -
  let ?L = "buddy_layout h"
  define N :: nat where "N = 2 ^ A"
  define sa :: nat where "sa = (A + 1) * 4"
  define ss :: nat where "ss = (N div 8 + 1) * 6 div 8"
  have A32: "A < 32" using assms(3) by simp
  have ms: "(ucast (b_hs h div 2) :: u32) = 2 ^ A" unfolding assms(1) using assms(3) by (rule half_pow2)
  have l: "buddy_log2 (2 ^ A) = A" using A32 by (rule buddy_log2_pow2)
  have uA: "unat ((2 :: u32) ^ A) = N" unfolding N_def using A32 by (rule unat_2p32)
  have N31: "N \<le> 2 ^ 31" unfolding N_def using assms(3) by (intro power_increasing) auto
  have fit: "sa + ss \<le> N" unfolding sa_def ss_def N_def using assms(2) by (rule bookkeeping_fits)
  have "unat ((2 :: u64) ^ (A + 1)) = 2 ^ (A + 1)" using assms(3) by (intro unat_2p64) simp
  then have hs: "unat (b_hs h) = 2 * N" unfolding assms(1) N_def by simp
  have nw: "unat (b_mh h) + 2 * N \<le> 2 ^ 64" using assms(4) by (simp add: N_def)
  have msz: "b_msize ?L = 2 ^ A" by (simp add: buddy_layout_fields ms)
  have asz: "b_asize ?L = of_nat sa" by (simp add: buddy_layout_fields ms l sa_def)
  have "sa < 2 ^ 32" using fit N31 by simp
  then have ua: "unat (b_asize ?L) = sa" unfolding asz by (simp only: unat_of_nat) simp
  have us: "unat (b_ssize ?L) = ss"
    unfolding buddy_layout_fields ms ssize_nat uA ss_def ..
  have "sa + ss < 2 ^ 32" using fit N31 by simp
  then have uas: "unat (b_asize ?L + b_ssize ?L) = sa + ss"
    by (simp add: unat_word_ariths ua us)
  have "b_asize ?L + b_ssize ?L \<le> b_msize ?L"
    unfolding word_le_nat_alt uas msz uA by (rule fit)
  then have "unat (b_msize ?L - (b_asize ?L + b_ssize ?L)) = N - (sa + ss)"
    by (simp add: unat_sub uas msz uA)
  then have ue: "unat (b_esize ?L) = N - (sa + ss)"
    by (simp only: buddy_layout_fields(12))
  have eh: "b_eh ?L = b_mh h + ucast ((2 :: u32) ^ A)" by (simp add: buddy_layout_fields ms)
  have Npos: "0 < N" by (simp add: N_def)
  have "unat (b_mh h) + N < 2 ^ 64" using nw Npos by linarith
  then have ueh: "unat (b_eh ?L) = unat (b_mh h) + N"
    unfolding eh by (simp add: unat_word_ariths unat_ucast_32_64 uA)
  have sapos: "0 < sa" by (simp add: sa_def)
  have "unat (b_mh h) + N + (N - (sa + ss)) < 2 ^ 64" using nw fit sapos by linarith
  then have uah: "unat (b_ahp ?L) = unat (b_mh h) + N + (N - (sa + ss))"
    unfolding buddy_layout_fields(13) by (simp add: unat_word_ariths unat_ucast_32_64 ueh ue)
  have "(2 :: nat) ^ 5 \<le> 2 ^ A" using assms(2) by (intro power_increasing) auto
  then have "2 \<le> N div 8" unfolding N_def by simp
  then have "2 \<le> ss" unfolding ss_def by (rule ssize_ge2)
  then have sspos: "0 < ss" by simp
  have "unat (b_mh h) + N + (N - (sa + ss)) + sa < 2 ^ 64" using nw fit sspos by linarith
  then have ush: "unat (b_shp ?L) = unat (b_mh h) + N + (N - (sa + ss)) + sa"
    unfolding buddy_layout_fields(14) by (simp add: unat_word_ariths unat_ucast_32_64 uah ua)
  show "in_region h (b_shp ?L) (b_ssize ?L)"
    unfolding in_region_def ush us hs using fit by linarith
  show "in_region h (b_ahp ?L) (b_asize ?L)"
    unfolding in_region_def uah ua hs using fit by linarith
qed

lemma buddy_init_fresh:
  assumes "b_mh h \<noteq> 0" "b_e h = 0" "b_hs h = 2 ^ (A + 1)" "5 \<le> A" "A \<le> 31"
    and "unat (b_mh h) + 2 ^ (A + 1) \<le> 2 ^ 64"
  shows "\<exists>h' m'. buddy_init h m = Some (0, h', m') \<and> b_mh h' = b_mh h \<and> b_e h' = 0
     \<and> b_hs h' = b_hs h \<and> b_eh h' = b_mh h + ucast ((2 :: u32) ^ A)
     \<and> b_msize h' = 2 ^ A \<and> b_AMAX h' = A \<and> (\<forall>i. i < A \<longrightarrow> b_ah h' i = NOBLOCK) \<and> b_ah h' A = 0
     \<and> bl_nxt m' (b_mh h) = NOBLOCK \<and> getsize h' 0 = 0"
proof -
  let ?h8 = "buddy_layout h"
  let ?h9 = "?h8\<lparr>b_sh := (\<lambda>i. if i < unat (b_ssize ?h8) then 0 else b_sh ?h8 i)\<rparr>"
  let ?m1 = "memset m (b_mh ?h8) 0xff (ucast (b_msize ?h8))"
  let ?h1 = "?h9\<lparr>b_ah := (\<lambda>i. if 4 * i < unat (b_asize ?h9) then NOBLOCK else b_ah ?h9 i)\<rparr>"
  have A32: "A < 32" using assms(5) by simp
  have "(2 :: u64) ^ (A + 1) \<noteq> 0" using assms(5) by (simp only: exp_eq_zero_iff) simp
  then have hs0: "b_hs h \<noteq> 0" using assms(3) by simp
  have r8: "in_region ?h8 p n = in_region h p n" for p n
    by (simp add: in_region_def buddy_layout_fields)
  have isz: "init_size ?h8 = Some ?h9"
    using fresh_layout(1)[OF assms(3,4,5,6)] by (simp add: init_size_def r8)
  have ir: "in_region ?h9 (b_ahp ?h9) (b_asize ?h9)"
    using fresh_layout(2)[OF assms(3,4,5,6)] by (simp add: r8)
  have ms: "(ucast (b_hs h div 2) :: u32) = 2 ^ A" unfolding assms(3) using assms(5) by (rule half_pow2)
  have l: "buddy_log2 (2 ^ A) = A" using A32 by (rule buddy_log2_pow2)
  have uA: "unat ((2 :: u32) ^ A) = 2 ^ A" using A32 by (rule unat_2p32)
  have f9: "b_msize ?h9 = 2 ^ A" "b_AMAX ?h9 = A" "b_mh ?h9 = b_mh h" "b_e ?h9 = 0"
      "b_hs ?h9 = b_hs h" "b_eh ?h9 = b_mh h + ucast ((2 :: u32) ^ A)"
      "b_asize ?h9 = of_nat ((A + 1) * 4)" "b_ssize ?h9 = (2 ^ A div 8 + 1) * 6 div 8"
    using assms(2) by (simp_all add: buddy_layout_fields ms l)
  have "unat (of_nat ((A + 1) * 4) :: u32) = (A + 1) * 4"
    using assms(5) by (simp only: unat_of_nat) simp
  then have as: "unat (b_asize ?h9) = (A + 1) * 4" using f9(7) by simp
  have "(2 :: nat) ^ 4 \<le> 2 ^ A" using assms(4) by (intro power_increasing) auto
  then have "2 \<le> (2 :: nat) ^ A div 8" by simp
  then have "2 \<le> ((2 :: nat) ^ A div 8 + 1) * 6 div 8" by (rule ssize_ge2)
  then have ss: "2 \<le> unat (b_ssize ?h9)" unfolding f9(8) ssize_nat uA .
  have sh: "b_sh ?h9 0 = 0" "b_sh ?h9 1 = 0" using ss by (simp_all add: f9(8)[symmetric])
  have pos: "0 < b_msize ?h1" using uA f9(1) by (simp add: word_less_nat_alt)
  have "init_avail ?h9 ?m1 = binsert ?h1 ?m1 0 (buddy_log2 (b_msize ?h1))"
    by (simp only: init_avail_def Let_def ir if_True)
  also have "buddy_log2 (b_msize ?h1) = A" using f9(1) l by simp
  finally have ia: "init_avail ?h9 ?m1 = Some (?h1\<lparr>b_ah := (b_ah ?h1)(A := 0)\<rparr>, block_insert ?h1 ?m1 (b_ah ?h1 A) 0)"
    unfolding binsert_Some[OF pos, of ?m1 A] .
  let ?h10 = "?h1\<lparr>b_ah := (b_ah ?h1)(A := 0)\<rparr>"
  let ?m2 = "block_insert ?h1 ?m1 (b_ah ?h1 A) 0"
  have aA: "b_ah ?h1 A = NOBLOCK" using as by simp
  have f1: "far (b_mh h + 4 - b_mh h)" using far_4 by simp
  have nx: "bl_nxt ?m2 (b_mh h) = NOBLOCK" unfolding aA
    by (simp add: block_insert_def Let_def block2ptr_0 buddy_layout_fields(1) bl_nxt_def set_bl_nxt_def
        set_bl_prv_def read32_write32_same read32_write32_far[OF f1])
  have r: "buddy_init h m = Some (0, ?h10, ?m2)"
    unfolding buddy_init_def Let_def isz Option.bind.simps ia using assms(1,2) hs0 f9(4) by (simp add: OK_def)
  have g: "getsize ?h10 0 = 0" using sh by (intro getsize_0) simp_all
  have ah: "\<forall>i. i < A \<longrightarrow> b_ah ?h10 i = NOBLOCK" using as by simp
  have "b_mh ?h10 = b_mh h \<and> b_e ?h10 = 0 \<and> b_hs ?h10 = b_hs h
      \<and> b_eh ?h10 = b_mh h + ucast ((2 :: u32) ^ A)
      \<and> b_msize ?h10 = 2 ^ A \<and> b_AMAX ?h10 = A \<and> b_ah ?h10 A = 0"
    using f9(1-6) by simp
  then show ?thesis using r nx g ah by blast
qed

lemma buddy_effsize_small:
  assumes "0 < unat sz" "unat sz \<le> 2 ^ (A - 1)" "4 \<le> A" "A \<le> 31"
  shows "\<exists>k. 3 \<le> k \<and> k < A \<and> buddy_effsize sz = 2 ^ k"
proof (cases "sz < 8")
  case True
  then have "buddy_effsize sz = 2 ^ 3" by (simp add: buddy_effsize_def MINSIZE_def)
  then show ?thesis using assms(3) by (intro exI[of _ 3]) simp
next
  case False
  then have ge: "8 \<le> unat sz" by (simp add: word_less_nat_alt)
  have "(2 :: nat) ^ (A - 1) \<le> 2 ^ 30" using assms(4) by (intro power_increasing) auto
  then have le30: "unat sz \<le> 2 ^ 30" using assms(2) by linarith
  then have u: "unat (ucast sz :: u32) = unat sz"
    by (simp add: unsigned_ucast_eq take_bit_nat_eq_self)
  have "0 < unat (ucast sz :: u32)" "unat (ucast sz :: u32) \<le> 2 ^ 31" using ge le30 u by simp_all
  from nextpow2_spec[OF this] obtain L where L: "L \<le> 31" "nextpow2 (ucast sz) = 2 ^ L"
      "unat sz \<le> 2 ^ L" "L = 0 \<or> 2 ^ (L - 1) < unat sz" unfolding u by blast
  have "(2 :: nat) ^ 3 \<le> 2 ^ L" using ge L(3) by simp
  then have L3: "3 \<le> L" using power_le_imp_le_exp[of "2 :: nat" 3 L] by simp
  then have "L \<noteq> 0" by simp
  then have "(2 :: nat) ^ (L - 1) < unat sz" using L(4) by blast
  then have "(2 :: nat) ^ (L - 1) < 2 ^ (A - 1)" using assms(2) by linarith
  then have "L - 1 < A - 1" using power_less_imp_less_exp[of "2 :: nat" "L - 1" "A - 1"] by simp
  then have "L < A" using L3 by simp
  then show ?thesis using L3 L(2) False by (auto simp: buddy_effsize_def)
qed

lemma buddy_effsize_large:
  assumes "2 ^ (A - 1) < unat sz" "unat sz \<le> 2 ^ 31" "4 \<le> A" "A \<le> 31"
  shows "(2 :: u32) ^ A \<le> buddy_effsize sz"
proof -
  have "(2 :: nat) ^ 3 \<le> 2 ^ (A - 1)" using assms(3) by (intro power_increasing) auto
  then have ge: "8 < unat sz" using assms(1) by simp
  then have n8: "\<not> sz < 8" by (simp add: word_less_nat_alt)
  have u: "unat (ucast sz :: u32) = unat sz" using assms(2)
    by (simp add: unsigned_ucast_eq take_bit_nat_eq_self)
  have "0 < unat (ucast sz :: u32)" "unat (ucast sz :: u32) \<le> 2 ^ 31" using ge assms(2) u by simp_all
  from nextpow2_spec[OF this] obtain L where L: "L \<le> 31" "nextpow2 (ucast sz) = 2 ^ L"
      "unat sz \<le> 2 ^ L" unfolding u by blast
  have "(2 :: nat) ^ (A - 1) < 2 ^ L" using assms(1) L(3) by linarith
  then have "A - 1 < L" using power_less_imp_less_exp[of "2 :: nat" "A - 1" L] by simp
  then have "A \<le> L" by simp
  then have "(2 :: nat) ^ A \<le> 2 ^ L" by (intro power_increasing) auto
  moreover have "unat ((2 :: u32) ^ A) = 2 ^ A" using assms(4) by (intro unat_2p32) simp
  moreover have "unat ((2 :: u32) ^ L) = 2 ^ L" using L(1) by (intro unat_2p32) simp
  ultimately have "(2 :: u32) ^ A \<le> 2 ^ L" by (simp add: word_le_nat_alt)
  then show ?thesis using n8 L(2) by (simp add: buddy_effsize_def)
qed

lemma buddy_get_block_reject:
  assumes "b_msize h \<le> buddy_effsize sz"
  shows "buddy_get_block h m sz = Some (0, h, m)"
proof -
  have "\<not> buddy_effsize sz < b_msize h" using assms by (simp add: not_less)
  then show ?thesis by (simp add: buddy_get_block_def Let_def)
qed

lemma buddy_get_block_zero: "buddy_get_block h m 0 = Some (0, h, m)"
  by (simp add: buddy_get_block_def)

lemma buddy_get_block_fresh:
  assumes "0 < unat sz" "unat sz \<le> 2 ^ (A - 1)" "4 \<le> A" "A \<le> 31"
    and "b_AMAX h = A" "b_msize h = 2 ^ A"
    and "\<forall>i. i < A \<longrightarrow> b_ah h i = NOBLOCK" and "b_ah h A = 0"
    and "bl_nxt m (b_mh h) = NOBLOCK" and "getsize h 0 = 0"
  shows "\<exists>k ah' m'. 3 \<le> k \<and> k < A \<and> buddy_effsize sz = 2 ^ k
           \<and> buddy_get_block h m sz = Some (b_mh h, putsize (h\<lparr>b_ah := ah'\<rparr>) 0 (of_nat k), m')
           \<and> (\<forall>j. j < k \<longrightarrow> ah' j = NOBLOCK)"
proof -
  have z: "(0 :: u32) \<noteq> NOBLOCK" by (simp add: NOBLOCK_def)
  obtain k where k: "3 \<le> k" "k < A" "buddy_effsize sz = 2 ^ k"
    using buddy_effsize_small[OF assms(1-4)] by blast
  have "sz \<noteq> 0" using assms(1) by auto
  then have s0: "0 < sz" by (simp add: word_greater_zero_iff)
  have "(2 :: nat) ^ k < 2 ^ A" using k(2) by (intro power_strict_increasing) auto
  moreover have "unat ((2 :: u32) ^ A) = 2 ^ A" using assms(4) by (intro unat_2p32) simp
  moreover have "unat ((2 :: u32) ^ k) = 2 ^ k" using assms(4) k(2) by (intro unat_2p32) simp
  ultimately have lt: "(2 :: u32) ^ k < b_msize h" unfolding assms(6) by (simp add: word_less_nat_alt)
  obtain ah1 m1 where g: "getblock h m (2 ^ k) = Some (0, putsize (h\<lparr>b_ah := ah1\<rparr>) 0 (of_nat k), m1)"
      and u1: "\<forall>j. j < k \<longrightarrow> ah1 j = NOBLOCK"
    using getblock_fresh[OF k(1,2) assms(4,5,6,7,8,9,10)] by blast
  have "buddy_get_block h m sz = Some (b_mh h, putsize (h\<lparr>b_ah := ah1\<rparr>) 0 (of_nat k), m1)"
    by (simp add: buddy_get_block_def Let_def s0 k(3) lt g z block2ptr_0 putsize_mh)
  then show ?thesis using k u1 by blast
qed

text \<open>
  Claim C5, as amended.  Take a buddy arena with \<open>e = 0\<close>, initialised over a region
  of \<open>2 ^ (A + 1)\<close> bytes with \<open>5 \<le> A \<le> 31\<close> that lies in the address space, so that
  \<open>msize = 2 ^ A\<close> and the avail table and the size area fit behind the emergency
  heap.  Then \<^verbatim>\<open>buddy_init\<close> returns 0, \<^verbatim>\<open>buddy_get_block\<close> returns null for \<open>sz = 0\<close>
  and for every \<open>sz\<close> with \<open>msize / 2 < sz \<le> 2 ^ 31\<close> (the effective size
  \<^verbatim>\<open>nextpow2(sz)\<close> is then at least \<open>msize\<close>, and the guard \<^verbatim>\<open>s < h->msize\<close> tests the
  effective size), and on the fresh arena it returns the non-null pointer \<open>mh\<close> for
  every \<open>sz\<close> with \<open>0 < sz \<le> msize / 2\<close>.
\<close>

theorem buddy_get_block_size_guard:
  assumes "b_mh h0 \<noteq> 0" and "b_e h0 = 0" and "b_hs h0 = 2 ^ (A + 1)" and "5 \<le> A" and "A \<le> 31"
    and "unat (b_mh h0) + 2 ^ (A + 1) \<le> 2 ^ 64"
  shows "\<exists>h m. buddy_init h0 m0 = Some (0, h, m) \<and> b_msize h = 2 ^ A
           \<and> buddy_get_block h m 0 = Some (0, h, m)
           \<and> (\<forall>sz. 2 ^ (A - 1) < unat sz \<and> unat sz \<le> 2 ^ 31 \<longrightarrow> buddy_get_block h m sz = Some (0, h, m))
           \<and> (\<forall>sz. 0 < unat sz \<and> unat sz \<le> 2 ^ (A - 1) \<longrightarrow>
                 (\<exists>h' m'. buddy_get_block h m sz = Some (b_mh h0, h', m')))"
proof -
  obtain h m where i: "buddy_init h0 m0 = Some (0, h, m)" and f: "b_mh h = b_mh h0"
      "b_msize h = 2 ^ A" "b_AMAX h = A" "\<forall>i. i < A \<longrightarrow> b_ah h i = NOBLOCK" "b_ah h A = 0"
      "bl_nxt m (b_mh h0) = NOBLOCK" "getsize h 0 = 0"
    using buddy_init_fresh[OF assms, of m0] by blast
  have a4: "4 \<le> A" using assms(4) by simp
  have big: "buddy_get_block h m sz = Some (0, h, m)" if "2 ^ (A - 1) < unat sz \<and> unat sz \<le> 2 ^ 31" for sz
  proof -
    have sz: "2 ^ (A - 1) < unat sz" "unat sz \<le> 2 ^ 31" using that by blast+
    have "b_msize h \<le> buddy_effsize sz" unfolding f(2) using sz a4 assms(5) by (rule buddy_effsize_large)
    then show ?thesis by (rule buddy_get_block_reject)
  qed
  have small: "\<exists>h' m'. buddy_get_block h m sz = Some (b_mh h0, h', m')"
    if "0 < unat sz \<and> unat sz \<le> 2 ^ (A - 1)" for sz
  proof -
    have sz: "0 < unat sz" "unat sz \<le> 2 ^ (A - 1)" using that by blast+
    have n: "bl_nxt m (b_mh h) = NOBLOCK" using f(6) f(1) by simp
    show ?thesis using buddy_get_block_fresh[OF sz a4 assms(5) f(3,2,4,5) n f(7)] f(1) by auto
  qed
  show ?thesis
  proof (rule exI[of _ h], rule exI[of _ m], intro conjI)
    show "buddy_init h0 m0 = Some (0, h, m)" by (rule i)
    show "b_msize h = 2 ^ A" by (rule f(2))
    show "buddy_get_block h m 0 = Some (0, h, m)" by (rule buddy_get_block_zero)
    show "\<forall>sz. 2 ^ (A - 1) < unat sz \<and> unat sz \<le> 2 ^ 31 \<longrightarrow> buddy_get_block h m sz = Some (0, h, m)"
      using big by blast
    show "\<forall>sz. 0 < unat sz \<and> unat sz \<le> 2 ^ (A - 1) \<longrightarrow>
                 (\<exists>h' m'. buddy_get_block h m sz = Some (b_mh h0, h', m'))"
      using small by blast
  qed
qed

lemma buddy_effsize_524289: "buddy_effsize 524289 = 1048576"
  by (simp add: buddy_effsize_def nextpow2_def Let_def)

theorem buddy_get_block_size_guard_witness:
  "b_mh smoke_buddy \<noteq> 0 \<and> b_e smoke_buddy = 0 \<and> b_hs smoke_buddy = 2 ^ (20 + 1)
     \<and> (5 :: nat) \<le> 20 \<and> (20 :: nat) \<le> 31
     \<and> unat (b_mh smoke_buddy) + 2 ^ (20 + 1) \<le> 2 ^ 64
     \<and> (\<exists>h m. buddy_init smoke_buddy zero_mem = Some (0, h, m) \<and> b_msize h = 2 ^ 20
           \<and> buddy_get_block h m 0 = Some (0, h, m)
           \<and> buddy_get_block h m 524289 = Some (0, h, m)
           \<and> (\<exists>h' m'. buddy_get_block h m 524288 = Some (b_mh smoke_buddy, h', m')))"
proof -
  have a: "b_mh smoke_buddy \<noteq> 0" "b_e smoke_buddy = 0" "b_hs smoke_buddy = 2 ^ (20 + 1)"
      "(5 :: nat) \<le> 20" "(20 :: nat) \<le> 31" "unat (b_mh smoke_buddy) + 2 ^ (20 + 1) \<le> 2 ^ 64"
    by (simp_all add: smoke_buddy_def)
  from buddy_get_block_size_guard[OF a, of zero_mem]
  obtain h m where i: "buddy_init smoke_buddy zero_mem = Some (0, h, m)" "b_msize h = 2 ^ 20"
      "buddy_get_block h m 0 = Some (0, h, m)"
    and big: "\<forall>sz. 2 ^ (20 - 1) < unat sz \<and> unat sz \<le> 2 ^ 31 \<longrightarrow> buddy_get_block h m sz = Some (0, h, m)"
    and small: "\<forall>sz. 0 < unat sz \<and> unat sz \<le> 2 ^ (20 - 1) \<longrightarrow>
                 (\<exists>h' m'. buddy_get_block h m sz = Some (b_mh smoke_buddy, h', m'))"
    by blast
  have "buddy_get_block h m 524289 = Some (0, h, m)" using big[rule_format, of 524289] by simp
  moreover have "\<exists>h' m'. buddy_get_block h m 524288 = Some (b_mh smoke_buddy, h', m')"
    using small[rule_format, of 524288] by simp
  ultimately show ?thesis using a i by blast
qed

text \<open>
  The claim as it was stated fails on the arena of the smoke test (\<open>msize = 2 ^ 20\<close>,
  \<open>e = 0\<close>): for \<open>sz = 2 ^ 19 + 1\<close>, which lies between 0 and \<open>msize\<close>, the fresh arena
  returns null and is left as it was.
\<close>

theorem buddy_get_block_rejects_below_msize:
  "\<exists>h m. buddy_init smoke_buddy zero_mem = Some (0, h, m) \<and> b_e h = 0
      \<and> (0 :: u64) < 524289 \<and> (524289 :: u64) < ucast (b_msize h)
      \<and> buddy_get_block h m 524289 = Some (0, h, m)"
proof -
  obtain h m where i: "buddy_init smoke_buddy zero_mem = Some (0, h, m)" and e: "b_e h = 0"
      and ms: "b_msize h = 1048576"
    using smoke_init by blast
  have "buddy_get_block h m 524289 = Some (0, h, m)"
    by (simp add: buddy_get_block_def Let_def buddy_effsize_524289 ms)
  moreover have "(524289 :: u64) < ucast (b_msize h)" unfolding ms by simp
  ultimately show ?thesis using i e by auto
qed

section \<open>\<^verbatim>\<open>bshrink\<close>\<close>

text \<open>Blocks at multiples of 8\<close>

lemma modpow2_MINSIZE: "modpow2 x MINSIZE = 0 \<longleftrightarrow> 8 dvd unat x"
proof -
  have "modpow2 x MINSIZE = take_bit 3 x"
    by (simp add: modpow2_def MINSIZE_def take_bit_eq_mask mask_eq_exp_minus_1)
  moreover have "unat (take_bit 3 x) = unat x mod 8"
    by (simp add: unsigned_take_bit_eq take_bit_eq_mod unat_mod)
  ultimately have "unat (modpow2 x MINSIZE) = unat x mod 8" by simp
  moreover have "modpow2 x MINSIZE = 0 \<longleftrightarrow> unat (modpow2 x MINSIZE) = 0"
    by (simp add: unat_eq_0)
  ultimately show ?thesis by (simp add: dvd_eq_mod_eq_0)
qed

lemma aligned_ne_NOBLOCK: "8 dvd unat (x :: u32) \<Longrightarrow> x \<noteq> NOBLOCK"
  by (auto simp: NOBLOCK_def)

lemma block2ptr_aligned: "8 dvd unat x \<Longrightarrow> block2ptr h x = ucast x + b_mh h"
  using aligned_ne_NOBLOCK[of x] by (simp add: block2ptr_def)

lemma mod8_bounds: "(n :: nat) < 8 * K \<Longrightarrow> n mod 8 = 4 \<or> (n mod 8 = 0 \<and> n \<noteq> 0) \<Longrightarrow> 4 \<le> n \<and> n \<le> 8 * K - 4"
  by presburger

lemma far_mod8:
  fixes d :: u64
  assumes "unat d mod 8 = 4 \<or> (unat d mod 8 = 0 \<and> d \<noteq> 0)"
  shows "far d"
proof -
  have lt: "unat d < 8 * 2305843009213693952" using unsigned_less[of d] by simp
  have "unat d mod 8 = 4 \<or> (unat d mod 8 = 0 \<and> unat d \<noteq> 0)"
    using assms by (auto simp: unat_eq_0)
  from mod8_bounds[OF lt this] show ?thesis by (simp add: far_def)
qed

lemma uint_diff_mod8:
  fixes x y :: u32 and c :: u64
  assumes "8 dvd unat x" "8 dvd unat y"
  shows "unat ((ucast x :: u64) + c - ucast y) mod 8 = unat c mod 8"
proof -
  let ?d = "(ucast x :: u64) + c - ucast y"
  obtain kx where "unat x = 8 * kx" using assms(1) by (auto simp: dvd_def)
  then have "uint x = 8 * int kx" by (simp add: uint_nat)
  then obtain x' where x': "uint x = 8 * x'" by blast
  obtain ky where "unat y = 8 * ky" using assms(2) by (auto simp: dvd_def)
  then have "uint y = 8 * int ky" by (simp add: uint_nat)
  then obtain y' where y': "uint y = 8 * y'" by blast
  have ux: "uint (ucast x :: u64) = uint x" by (simp add: uint_up_ucast is_up)
  have uy: "uint (ucast y :: u64) = uint y" by (simp add: uint_up_ucast is_up)
  have "uint ?d = (uint x + uint c - uint y) mod 2 ^ 64"
    by (simp add: uint_word_ariths ux uy mod_simps)
  then have "uint ?d mod 8 = ((8 * x' + uint c - 8 * y') mod (8 * 2305843009213693952)) mod 8"
    by (simp add: x' y')
  also have "\<dots> = (8 * x' + uint c - 8 * y') mod 8"
    by (rule mod_mod_cancel) simp
  also have "\<dots> = uint c mod 8" by presburger
  finally have "uint ?d mod 8 = uint c mod 8" .
  then have "int (unat ?d mod 8) = int (unat c mod 8)" by (simp add: zmod_int)
  then show ?thesis by (simp only: of_nat_eq_iff)
qed

lemma far_aligned_4:
  fixes x y :: u32
  assumes "8 dvd unat x" "8 dvd unat y"
  shows "far (ucast x + mh + 4 - (ucast y + mh))"
proof -
  have e: "ucast x + mh + 4 - (ucast y + mh) = (ucast x :: u64) + 4 - ucast y" by simp
  show ?thesis unfolding e using uint_diff_mod8[OF assms, of 4] by (intro far_mod8) simp
qed

lemma far_aligned_0:
  fixes x y :: u32
  assumes "8 dvd unat x" "8 dvd unat y" "x \<noteq> y"
  shows "far (ucast x + mh - (ucast y + mh))"
proof -
  have e: "ucast x + mh - (ucast y + mh) = (ucast x :: u64) + 0 - ucast y" by simp
  have "unat (ucast x :: u64) \<noteq> unat (ucast y :: u64)"
    unfolding unat_ucast_32_64 using assms(3) by (simp add: word_unat_eq_iff)
  then have "(ucast x :: u64) + 0 - ucast y \<noteq> 0" by auto
  then show ?thesis unfolding e using uint_diff_mod8[OF assms(1,2), of 0] by (intro far_mod8) simp
qed

lemma nxt_block_insert_other:
  assumes "8 dvd unat x" "8 dvd unat bb" "x \<noteq> bb" and "old = NOBLOCK \<or> 8 dvd unat old"
  shows "bl_nxt (block_insert h m old bb) (block2ptr h x) = bl_nxt m (block2ptr h x)"
proof -
  have f1: "far (ucast bb + b_mh h - (ucast x + b_mh h))"
    using assms(1,2,3) by (intro far_aligned_0) auto
  have f2: "far (ucast bb + b_mh h + 4 - (ucast x + b_mh h))"
    using assms(1,2) by (intro far_aligned_4)
  show ?thesis
  proof (cases "old = NOBLOCK")
    case True
    then show ?thesis
      by (simp add: block_insert_def Let_def block2ptr_aligned assms(1,2) bl_nxt_def set_bl_nxt_def
          set_bl_prv_def read32_write32_far[OF f1] read32_write32_far[OF f2])
  next
    case False
    then have al: "8 dvd unat old" using assms(4) by simp
    have f3: "far (ucast old + b_mh h + 4 - (ucast x + b_mh h))"
      using assms(1) al by (intro far_aligned_4)
    show ?thesis using False
      by (simp add: block_insert_def Let_def block2ptr_aligned assms(1,2) al bl_nxt_def set_bl_nxt_def
          set_bl_prv_def read32_write32_far[OF f1] read32_write32_far[OF f2] read32_write32_far[OF f3])
  qed
qed

lemma nxt_block_insert_new:
  assumes "8 dvd unat bb" and "old = NOBLOCK \<or> 8 dvd unat old"
  shows "bl_nxt (block_insert h m old bb) (block2ptr h bb) = old"
proof -
  have f2: "far (ucast bb + b_mh h + 4 - (ucast bb + b_mh h))"
    using assms(1) by (intro far_aligned_4)
  show ?thesis
  proof (cases "old = NOBLOCK")
    case True
    then show ?thesis
      by (simp add: block_insert_def Let_def block2ptr_aligned assms(1) bl_nxt_def set_bl_nxt_def
          set_bl_prv_def read32_write32_far[OF f2] read32_write32_same)
  next
    case False
    then have al: "8 dvd unat old" using assms(2) by simp
    have f3: "far (ucast old + b_mh h + 4 - (ucast bb + b_mh h))"
      using assms(1) al by (intro far_aligned_4)
    show ?thesis using False
      by (simp add: block_insert_def Let_def block2ptr_aligned assms(1) al bl_nxt_def set_bl_nxt_def
          set_bl_prv_def read32_write32_far[OF f2] read32_write32_far[OF f3] read32_write32_same)
  qed
qed

lemma block2ptr_ah_upd [simp]: "block2ptr (h\<lparr>b_ah := a\<rparr>) x = block2ptr h x"
  by (simp add: block2ptr_def)

lemma links_ah_upd [simp]: "links (h\<lparr>b_ah := a\<rparr>) m L = links h m L"
  by (induction h m L rule: links.induct) simp_all

lemma links_block_insert:
  assumes "\<forall>x \<in> set L. 8 dvd unat x \<and> x \<noteq> bb" and "8 dvd unat bb"
    and "old = NOBLOCK \<or> 8 dvd unat old"
  shows "links h (block_insert h m old bb) L = links h m L"
  using assms(1)
proof (induction h m L rule: links.induct)
  case (1 h m x y r)
  have "bl_nxt (block_insert h m old bb) (block2ptr h x) = bl_nxt m (block2ptr h x)"
    using "1.prems" assms(2,3) by (intro nxt_block_insert_other) auto
  moreover have "links h (block_insert h m old bb) (y # r) = links h m (y # r)"
    using "1.prems" by (intro "1.IH") auto
  ultimately show ?case by simp
qed simp_all

lemma chain_append:
  "chain k (ins @ [(b, j)]) = (if j = k then b # chain k ins else chain k ins)"
  by (simp add: chain_def)

lemma chain_Nil [simp]: "chain k [] = []"
  by (simp add: chain_def)

lemma set_chain: "set (chain k ins) = {a. (a, k) \<in> set ins}"
  by (auto simp: chain_def image_iff)

text \<open>\<^verbatim>\<open>binsert\<close> keeps the lists linked\<close>

lemma binsert_inv:
  assumes "avail_inv n h m ins" and "8 dvd unat bb" and "bb < b_msize h"
    and "\<forall>e \<in> set ins. fst e \<noteq> bb" and "j < n"
  shows "binsert h m bb j = Some (h\<lparr>b_ah := (b_ah h)(j := bb)\<rparr>, block_insert h m (b_ah h j) bb)"
    and "avail_inv n (h\<lparr>b_ah := (b_ah h)(j := bb)\<rparr>) (block_insert h m (b_ah h j) bb) (ins @ [(bb, j)])"
proof -
  let ?h1 = "h\<lparr>b_ah := (b_ah h)(j := bb)\<rparr>"
  let ?m1 = "block_insert h m (b_ah h j) bb"
  show "binsert h m bb j = Some (?h1, ?m1)" using assms(3) by (rule binsert_Some)
  have al: "\<forall>e \<in> set ins. 8 dvd unat (fst e) \<and> snd e < n"
    and hd: "\<forall>k. k < n \<longrightarrow> b_ah h k = NOBLOCK \<or> 8 dvd unat (b_ah h k)"
    and ch: "\<forall>k. chain k ins \<noteq> [] \<longrightarrow> b_ah h k = hd (chain k ins)"
    and li: "\<forall>k. links h m (chain k ins)"
    using assms(1) by (simp_all add: avail_inv_def)
  have old: "b_ah h j = NOBLOCK \<or> 8 dvd unat (b_ah h j)" using hd assms(5) by blast
  have mem: "\<forall>x \<in> set (chain k ins). 8 dvd unat x \<and> x \<noteq> bb" for k
    using al assms(4) by (auto simp: set_chain)
  have l1: "links h ?m1 (chain k ins)" for k
    using links_block_insert[OF mem[of k] assms(2) old, where h = h and m = m] li by simp
  have l2: "links h ?m1 (bb # chain j ins)"
  proof (cases "chain j ins")
    case Nil
    then show ?thesis by simp
  next
    case (Cons y r)
    then have "b_ah h j = y" using ch by (metis list.sel(1) list.distinct(1))
    then have "bl_nxt ?m1 (block2ptr h bb) = y"
      using nxt_block_insert_new[OF assms(2) old, where h = h and m = m] by simp
    then show ?thesis using l1[of j] Cons by simp
  qed
  have "\<forall>k. links ?h1 ?m1 (chain k (ins @ [(bb, j)]))"
    using l1 l2 by (simp add: chain_append)
  moreover have "\<forall>k. chain k (ins @ [(bb, j)]) \<noteq> [] \<longrightarrow> b_ah ?h1 k = hd (chain k (ins @ [(bb, j)]))"
    using ch by (simp add: chain_append)
  moreover have "\<forall>k. k < n \<longrightarrow> b_ah ?h1 k = NOBLOCK \<or> 8 dvd unat (b_ah ?h1 k)"
    using hd assms(2) by simp
  moreover have "\<forall>e \<in> set (ins @ [(bb, j)]). 8 dvd unat (fst e) \<and> snd e < n"
    using al assms(2,5) by simp
  ultimately show "avail_inv n ?h1 ?m1 (ins @ [(bb, j)])"
    unfolding avail_inv_def by blast
qed

text \<open>The walk of \<^verbatim>\<open>block_is_in\<close> along a linked list\<close>

lemma walk_chain:
  assumes "links h m (x # r)" and "a \<in> set r" and "\<forall>y \<in> set (x # r). block2ptr h y \<noteq> 0"
  shows "\<exists>t. block_walk h m (block2ptr h x) a = Some t \<and> t \<noteq> 0"
  using assms
proof (induction r arbitrary: x)
  case Nil
  then show ?case by simp
next
  case (Cons y r)
  have n: "bl_nxt m (block2ptr h x) = y" and l: "links h m (y # r)" using Cons.prems(1) by simp_all
  have p: "block2ptr h x \<noteq> 0" using Cons.prems(3) by simp
  show ?case
  proof (cases "y = a")
    case True
    have "block_walk h m (block2ptr h x) a = Some (block2ptr h x)"
      by (subst block_walk.simps) (simp add: n True)
    then show ?thesis using p by simp
  next
    case False
    then have a: "a \<in> set r" using Cons.prems(2) by simp
    have "block_walk h m (block2ptr h x) a = block_walk h m (block2ptr h y) a"
      by (subst block_walk.simps) (simp add: n False p)
    moreover have "\<exists>t. block_walk h m (block2ptr h y) a = Some t \<and> t \<noteq> 0"
      using l a Cons.prems(3) by (intro Cons.IH) auto
    ultimately show ?thesis by simp
  qed
qed

lemma bisin_chain:
  assumes "avail_inv n h m ins" and "(a, k) \<in> set ins" and "\<forall>e \<in> set ins. block2ptr h (fst e) \<noteq> 0"
  shows "bisin h m a k = Some True"
proof -
  have a: "a \<in> set (chain k ins)" using assms(2) by (simp add: set_chain)
  then obtain x r where c: "chain k ins = x # r" by (cases "chain k ins") auto
  have hd: "b_ah h k = x" and li: "links h m (x # r)"
    using assms(1) c by (auto simp: avail_inv_def) (metis c)
  show ?thesis
  proof (cases "x = a")
    case True
    then show ?thesis by (simp add: bisin_def block_is_in_def hd)
  next
    case False
    then have "a \<in> set r" using a c by simp
    moreover have "\<forall>y \<in> set (x # r). block2ptr h y \<noteq> 0"
      using assms(3) c[symmetric] by (auto simp: set_chain)
    ultimately obtain t where "block_walk h m (block2ptr h x) a = Some t" "t \<noteq> 0"
      using walk_chain[OF li] by blast
    then show ?thesis using False by (simp add: bisin_def block_is_in_def hd)
  qed
qed

text \<open>\<^verbatim>\<open>nextpow2\<close> and the rule of the specification\<close>

lemma nextpow2_floorlog:
  assumes "0 < unat sz" and "unat sz \<le> 2 ^ 31"
  shows "unat (nextpow2 sz) = spec_nextpow2 (unat sz)"
proof -
  define y where "y = sz - 1"
  define L where "L = floorlog 2 (unat y)"
  have sz0: "sz \<noteq> 0" using assms(1) by force
  have uy: "unat y = unat sz - 1" unfolding y_def using sz0 by (rule unat_minus_one)
  then have ylt: "unat y < 2 ^ 31" using assms by simp
  have Lle: "L \<le> 31" unfolding L_def using ylt by (intro floorlog_leI) auto
  have b1: "unat y < 2 ^ L"
  proof (cases "unat y = 0")
    case True then show ?thesis by simp
  next
    case False
    then show ?thesis using floorlog_bounds[of "unat y" 2] by (simp add: L_def)
  qed
  have b2: "L = 0 \<or> 2 ^ (L - 1) \<le> unat y"
  proof (cases "unat y = 0")
    case True then show ?thesis by (simp add: L_def floorlog_def)
  next
    case False
    then show ?thesis using floorlog_bounds[of "unat y" 2] by (simp add: L_def)
  qed
  obtain x' where x': "covers 32 (sz - 1) x'" "nextpow2 sz = x' + 1"
    using nextpow2_covers by blast
  have "x' = mask L" using covers_mask[OF x'(1)[folded y_def] b1 b2] .
  then have np: "nextpow2 sz = 2 ^ L" using x'(2) by (simp add: inc_mask_eq_exp)
  have "unat ((2 :: u32) ^ L) = 2 ^ L" using Lle by (intro unat_2p32) simp
  then show ?thesis unfolding np spec_nextpow2_def L_def uy .
qed

lemma pow2_dvd8: assumes "8 dvd (2 :: nat) ^ j" shows "3 \<le> j"
proof (rule ccontr)
  assume "\<not> 3 \<le> j"
  then consider "j = 0" | "j = 1" | "j = 2" by arith
  then show False using assms by cases simp_all
qed

text \<open>One turn of the loop, in the code and in the rule\<close>

lemma shrink_step_spec:
  assumes "0 < unat cz" "unat cz < 2 ^ 31" "8 dvd unat cz"
  defines "k \<equiv> (if cz \<noteq> nextpow2 cz then drop_bit 2 (nextpow2 cz) else nextpow2 cz)"
    and "m \<equiv> (if spec_nextpow2 (unat cz) \<noteq> unat cz then spec_nextpow2 (unat cz) div 4
              else spec_nextpow2 (unat cz))"
  shows "\<exists>j. 3 \<le> j \<and> j < 32 \<and> k = 2 ^ j \<and> 2 ^ j \<le> unat cz \<and> m = 2 ^ j"
proof -
  obtain L where L: "L \<le> 31" "nextpow2 cz = 2 ^ L" "unat cz \<le> 2 ^ L" "L = 0 \<or> 2 ^ (L - 1) < unat cz"
    using nextpow2_spec[of cz] assms(1,2) by auto
  have uL: "unat ((2 :: u32) ^ L) = 2 ^ L" using L(1) by (simp add: unat_2p32)
  have sp: "spec_nextpow2 (unat cz) = 2 ^ L"
    using nextpow2_floorlog[of cz] assms(1,2) L(2) uL by simp
  show ?thesis
  proof (cases "cz = nextpow2 cz")
    case True
    then have k: "k = 2 ^ L" and u: "unat cz = 2 ^ L" using L uL by (simp_all add: k_def)
    have "m = 2 ^ L" using sp u by (simp add: m_def)
    moreover have "3 \<le> L" using assms(3) u by (intro pow2_dvd8) simp
    ultimately show ?thesis using k u L(1) by (intro exI[of _ L]) auto
  next
    case False
    have ne: "unat cz \<noteq> 2 ^ L" using False L(2) uL by (auto simp: word_unat_eq_iff)
    have L5: "5 \<le> L"
    proof (rule ccontr)
      assume "\<not> 5 \<le> L"
      then consider "L = 0" | "L = 1" | "L = 2" | "L = 3" | "L = 4" by arith
      then show False
      proof cases
        case 1 then show ?thesis using L(3) ne assms(1) by simp
      next
        case 2 then show ?thesis using L(3,4) ne assms(1) by simp
      next
        case 3 then show ?thesis using L(3,4) ne assms(3) by (auto simp: dvd_def)
      next
        case 4 then show ?thesis using L(3,4) ne assms(3) by (auto simp: dvd_def)
      next
        case 5 then show ?thesis using L(3,4) ne assms(3) by (auto simp: dvd_def)
      qed
    qed
    then have L2: "2 \<le> L" by simp
    have k: "k = 2 ^ (L - 2)" using False L L2 by (simp add: k_def drop_bit_2p)
    have "L = (L - 2) + 2" using L2 by simp
    then have "(2 :: nat) ^ L = 2 ^ ((L - 2) + 2)" by (rule arg_cong)
    then have p4: "(2 :: nat) ^ L = 2 ^ (L - 2) * 4" by (simp only: power_add) simp
    then have "m = 2 ^ (L - 2)" using sp ne by (simp add: m_def)
    moreover have "L - 1 = Suc (L - 2)" using L2 by simp
    then have "(2::nat) ^ (L - 1) = 2 * 2 ^ (L - 2)" by (simp only: power_Suc)
    then have "2 ^ (L - 2) \<le> unat cz" using L(4) L2 by auto
    ultimately show ?thesis using k L(1) L5 by (intro exI[of _ "L - 2"]) auto
  qed
qed

lemma dvd8_pow2: "3 \<le> j \<Longrightarrow> 8 dvd (2 :: nat) ^ j"
  using le_imp_power_dvd[of 3 j "2 :: nat"] by simp

text \<open>The loop of \<^verbatim>\<open>bshrink\<close>\<close>

lemma bshrink_loop_full:
  assumes "unat cz < 2 ^ 31" and "unat bb + unat cz \<le> unat (b_msize h)"
    and "8 dvd unat bb" and "8 dvd unat cz"
    and "avail_inv n h m ins" and "\<forall>e \<in> set ins. unat (fst e) < unat bb"
    and "unat cz < 2 ^ n"
  shows "\<exists>ah' m' ins'. bshrink_loop h m bb cz ins = Some (h\<lparr>b_ah := ah'\<rparr>, m', ins @ ins')
           \<and> tiles (unat bb) ins' (unat bb + unat cz)
           \<and> map (\<lambda>(a, k). (unat a, k)) ins' = spec_release (unat bb) (unat cz)
           \<and> avail_inv n (h\<lparr>b_ah := ah'\<rparr>) m' (ins @ ins')
           \<and> (\<forall>e \<in> set ins'. unat bb \<le> unat (fst e) \<and> unat (fst e) < unat bb + unat cz)"
  using assms
proof (induction "unat cz" arbitrary: cz bb h m ins rule: less_induct)
  case less
  show ?case
  proof (cases "cz = 0")
    case True
    then have "bshrink_loop h m bb cz ins = Some (h\<lparr>b_ah := b_ah h\<rparr>, m, ins @ [])"
      by (subst bshrink_loop.simps) simp
    moreover have "spec_release (unat bb) (unat cz) = []"
      using True by (subst spec_release.simps) simp
    moreover have "avail_inv n (h\<lparr>b_ah := b_ah h\<rparr>) m (ins @ [])" using less.prems(5) by simp
    ultimately show ?thesis using True
      by (intro exI[of _ "b_ah h"] exI[of _ m] exI[of _ "[]"]) simp
  next
    case False
    let ?k = "if cz \<noteq> nextpow2 cz then drop_bit 2 (nextpow2 cz) else nextpow2 cz"
    let ?m = "if spec_nextpow2 (unat cz) \<noteq> unat cz then spec_nextpow2 (unat cz) div 4
              else spec_nextpow2 (unat cz)"
    have pos: "0 < unat cz" using False by (simp add: unat_gt_0)
    obtain j where j: "3 \<le> j" "j < 32" "?k = 2 ^ j" "2 ^ j \<le> unat cz" "?m = 2 ^ j"
      using shrink_step_spec[OF pos less.prems(1,4)] by blast
    have lg: "buddy_log2 (2 ^ j) = j" using j(2) by (rule buddy_log2_pow2)
    have uk: "unat ((2 :: u32) ^ j) = 2 ^ j" using j(2) by (rule unat_2p32)
    have d8: "8 dvd (2 :: nat) ^ j" using j(1) by (rule dvd8_pow2)
    have pj: "(0 :: nat) < 2 ^ j" by simp
    have "unat bb < unat (b_msize h)" using pos less.prems(2) by simp
    then have lt: "bb < b_msize h" by (simp add: word_less_nat_alt)
    have ne: "\<forall>e \<in> set ins. fst e \<noteq> bb" using less.prems(6) by auto
    let ?h1 = "h\<lparr>b_ah := (b_ah h)(j := bb)\<rparr>"
    let ?m1 = "block_insert h m (b_ah h j) bb"
    have "(2 :: nat) ^ j < 2 ^ n" using j(4) less.prems(7) by linarith
    then have jn: "j < n" using power_less_imp_less_exp[of "2 :: nat" j n] by simp
    have bi: "binsert h m bb j = Some (?h1, ?m1)"
      and inv1: "avail_inv n ?h1 ?m1 (ins @ [(bb, j)])"
      using binsert_inv[OF less.prems(5,3) lt ne jn] by blast+
    have le: "(2 :: u32) ^ j \<le> cz" using j(4) uk by (simp add: word_le_nat_alt)
    have ucz: "unat (cz - 2 ^ j) = unat cz - 2 ^ j" using le uk by (simp add: unat_sub)
    have "unat (b_msize h) < 2 ^ 32" using unsigned_less[of "b_msize h"] by simp
    then have "unat bb + 2 ^ j < 2 ^ 32" using less.prems(2) j(4) by simp
    then have ubb: "unat (bb + 2 ^ j) = unat bb + 2 ^ j"
      using uk by (simp add: unat_word_ariths)
    have d: "unat (cz - 2 ^ j) < unat cz" using ucz pos j(4) by simp
    have p1: "unat (cz - 2 ^ j) < 2 ^ 31" using ucz less.prems(1) by simp
    have p2: "unat (bb + 2 ^ j) + unat (cz - 2 ^ j) \<le> unat (b_msize ?h1)"
      using ucz ubb less.prems(2) j(4) by simp
    have p3: "8 dvd unat (bb + 2 ^ j)" unfolding ubb using less.prems(3) d8 by (rule dvd_add)
    have p4: "8 dvd unat (cz - 2 ^ j)" unfolding ucz using less.prems(4) d8 by (rule dvd_diff_nat)
    have p6: "\<forall>e \<in> set (ins @ [(bb, j)]). unat (fst e) < unat (bb + 2 ^ j)"
      unfolding ubb using less.prems(6) pj by auto
    have p7: "unat (cz - 2 ^ j) < 2 ^ n" using ucz less.prems(7) by simp
    obtain ah' m' ins' where r:
      "bshrink_loop ?h1 ?m1 (bb + 2 ^ j) (cz - 2 ^ j) (ins @ [(bb, j)])
         = Some (?h1\<lparr>b_ah := ah'\<rparr>, m', (ins @ [(bb, j)]) @ ins')"
      "tiles (unat (bb + 2 ^ j)) ins' (unat (bb + 2 ^ j) + unat (cz - 2 ^ j))"
      "map (\<lambda>(a, k). (unat a, k)) ins' = spec_release (unat (bb + 2 ^ j)) (unat (cz - 2 ^ j))"
      "avail_inv n (?h1\<lparr>b_ah := ah'\<rparr>) m' ((ins @ [(bb, j)]) @ ins')"
      "\<forall>e \<in> set ins'. unat (bb + 2 ^ j) \<le> unat (fst e)
           \<and> unat (fst e) < unat (bb + 2 ^ j) + unat (cz - 2 ^ j)"
      using less.hyps[OF d p1 p2 p3 p4 inv1 p6 p7] by blast
    have e1: "?h1\<lparr>b_ah := ah'\<rparr> = h\<lparr>b_ah := ah'\<rparr>" by simp
    have "bshrink_loop h m bb cz ins = Some (h\<lparr>b_ah := ah'\<rparr>, m', ins @ ((bb, j) # ins'))"
      using r(1) unfolding e1
      by (subst bshrink_loop.simps) (simp add: False word_greater_zero_iff Let_def j(3) lg bi)
    moreover have "tiles (unat bb) ((bb, j) # ins') (unat bb + unat cz)"
      using r(2) ucz ubb j(4) by simp
    moreover have "map (\<lambda>(a, k). (unat a, k)) ((bb, j) # ins') = spec_release (unat bb) (unat cz)"
    proof -
      have "spec_release (unat bb) (unat cz)
              = (unat bb, floorlog 2 (2 ^ j) - 1) # spec_release (unat bb + 2 ^ j) (unat cz - 2 ^ j)"
        by (subst spec_release.simps) (simp only: pos if_True Let_def j(5))
      then show ?thesis using r(3) unfolding ubb ucz by (simp add: floorlog_2p)
    qed
    moreover have "avail_inv n (h\<lparr>b_ah := ah'\<rparr>) m' (ins @ ((bb, j) # ins'))"
      using r(4) unfolding e1 by simp
    moreover have "\<forall>e \<in> set ((bb, j) # ins'). unat bb \<le> unat (fst e) \<and> unat (fst e) < unat bb + unat cz"
      using r(5) unfolding ubb ucz using j(4) pos by auto
    ultimately show ?thesis by blast
  qed
qed

lemma putsize_erasesize_mh: "b_mh (putsize (erasesize h i) i c) = b_mh h"
  by (simp add: putsize_def erasesize_def Let_def)

lemma block2ptr_nonzero:
  assumes "8 dvd unat a" and "0 < unat a" and "unat a < unat (b_msize h)"
    and "unat (b_mh h) + unat (b_msize h) \<le> 2 ^ 64"
  shows "block2ptr h a \<noteq> 0"
proof -
  have "unat (ucast a + b_mh h) = unat a + unat (b_mh h)"
    using assms(3,4) by (simp add: unat_word_ariths unat_ucast_32_64)
  then have "unat (ucast a + b_mh h) \<noteq> 0" using assms(2) by simp
  then have "ucast a + b_mh h \<noteq> 0" by auto
  then show ?thesis using assms(1) by (simp add: block2ptr_aligned)
qed

text \<open>What \<^verbatim>\<open>bshrink\<close> does to a block in the main heap\<close>

lemma bshrink_result:
  assumes "3 \<le> s" and "s < c" and "c \<le> 31" and "unat b + 2 ^ c \<le> unat (b_msize h)"
    and "modpow2 b MINSIZE = 0"
    and "\<forall>k. k < c \<longrightarrow>
           b_ah h k = NOBLOCK \<or> (modpow2 (b_ah h k) MINSIZE = 0 \<and> b_ah h k < b_msize h)"
    and "unat (b_mh h) + unat (b_msize h) \<le> 2 ^ 64"
  shows "\<exists>h' m' ins. bshrink h m b c s = Some (h', m', ins)
           \<and> map (\<lambda>(a, k). (unat a, k)) ins
               = (unat b + 2 ^ s, s) # spec_release (unat b + 2 ^ (s + 1)) (2 ^ c - 2 ^ (s + 1))
           \<and> tiles (unat b + 2 ^ s) ins (unat b + 2 ^ c)
           \<and> (\<forall>(a, k) \<in> set ins. bisin h' m' a k = Some True)
           \<and> getsize h' (block2size b) = of_nat s
           \<and> b_mh h' = b_mh h"
proof -
  let ?i = "block2size b"
  let ?h2 = "putsize (erasesize h ?i) ?i (of_nat s)"
  have s32: "s < 32" "c < 32" "s + 1 < 32" using assms by simp_all
  have us: "unat ((2 :: u32) ^ s) = 2 ^ s" "unat ((2 :: u32) ^ c) = 2 ^ c"
           "unat ((2 :: u32) ^ (s + 1)) = 2 ^ (s + 1)"
    using s32 by (simp_all only: unat_2p32)
  have sc: "(2 :: nat) ^ (s + 1) \<le> 2 ^ c" using assms(2) by (intro power_increasing) auto
  have ms: "unat (b_msize h) < 2 ^ 32" using unsigned_less[of "b_msize h"] by simp
  have ub1: "unat (b + 2 ^ s) = unat b + 2 ^ s"
    using us sc ms assms(4) by (simp add: unat_word_ariths)
  have ub2: "unat (b + 2 ^ s + 2 ^ s) = unat b + 2 ^ (s + 1)"
    using us sc ms assms(4) ub1 by (simp add: unat_word_ariths)
  have ps: "(0 :: nat) < 2 ^ s" by simp
  have sc2: "(2 :: nat) * 2 ^ s \<le> 2 ^ c" using sc by simp
  have bal: "8 dvd unat b" using assms(5) by (simp add: modpow2_MINSIZE)
  have d8s: "8 dvd (2 :: nat) ^ s" using assms(1) by (rule dvd8_pow2)
  have d8s1: "8 dvd (2 :: nat) ^ (s + 1)" using assms(1) by (intro dvd8_pow2) simp
  have d8c: "8 dvd (2 :: nat) ^ c" using assms(1,2) by (intro dvd8_pow2) simp
  have f2: "b_msize ?h2 = b_msize h" "b_ah ?h2 = b_ah h" "b_mh ?h2 = b_mh h"
    by (simp_all add: putsize_fields erasesize_fields putsize_erasesize_mh)
  have inv0: "avail_inv c ?h2 m []"
    using assms(6) by (auto simp: avail_inv_def f2 modpow2_MINSIZE)
  have "unat (b + 2 ^ s) < unat (b_msize h)"
    using ub1 sc2 assms(4) ps by linarith
  then have lt: "b + 2 ^ s < b_msize ?h2" by (simp add: word_less_nat_alt f2)
  have al1: "8 dvd unat (b + 2 ^ s)" unfolding ub1 using bal d8s by (rule dvd_add)
  let ?h3 = "?h2\<lparr>b_ah := (b_ah ?h2)(s := b + 2 ^ s)\<rparr>"
  let ?m3 = "block_insert ?h2 m (b_ah ?h2 s) (b + 2 ^ s)"
  have bi: "binsert ?h2 m (b + 2 ^ s) s = Some (?h3, ?m3)"
    and inv1: "avail_inv c ?h3 ?m3 ([] @ [(b + 2 ^ s, s)])"
    using binsert_inv[OF inv0 al1 lt _ assms(2)] by simp_all
  let ?cz = "(2 :: u32) ^ c - push_bit 1 (2 ^ s)"
  have pb: "push_bit 1 ((2 :: u32) ^ s) = 2 ^ (s + 1)" by (simp add: push_bit_eq_mult)
  have "(2 :: u32) ^ (s + 1) \<le> 2 ^ c" using us sc by (simp only: word_le_nat_alt)
  then have ucz: "unat ?cz = 2 ^ c - 2 ^ (s + 1)" using us unfolding pb by (simp only: unat_sub)
  have c31: "(2 :: nat) ^ c \<le> 2 ^ 31" using assms(3) by (intro power_increasing) auto
  have "(2 :: nat) ^ c - 2 ^ (s + 1) < 2 ^ c" by (intro diff_less) simp_all
  then have p1: "unat ?cz < 2 ^ 31" using ucz c31 by linarith
  have p2: "unat (b + 2 ^ s + 2 ^ s) + unat ?cz \<le> unat (b_msize ?h3)"
    using ucz ub2 sc assms(4) by (simp add: f2)
  have p3: "8 dvd unat (b + 2 ^ s + 2 ^ s)" unfolding ub2 using bal d8s1 by (rule dvd_add)
  have p4: "8 dvd unat ?cz" unfolding ucz using d8c d8s1 by (rule dvd_diff_nat)
  have p6: "\<forall>e \<in> set ([] @ [(b + 2 ^ s, s)]). unat (fst e) < unat (b + 2 ^ s + 2 ^ s)"
    unfolding ub2 using ub1 by simp
  have p7: "unat ?cz < 2 ^ c" unfolding ucz by (intro diff_less) simp_all
  obtain ah' m' ins' where r:
    "bshrink_loop ?h3 ?m3 (b + 2 ^ s + 2 ^ s) ?cz ([] @ [(b + 2 ^ s, s)])
       = Some (?h3\<lparr>b_ah := ah'\<rparr>, m', ([] @ [(b + 2 ^ s, s)]) @ ins')"
    "tiles (unat (b + 2 ^ s + 2 ^ s)) ins' (unat (b + 2 ^ s + 2 ^ s) + unat ?cz)"
    "map (\<lambda>(a, k). (unat a, k)) ins' = spec_release (unat (b + 2 ^ s + 2 ^ s)) (unat ?cz)"
    "avail_inv c (?h3\<lparr>b_ah := ah'\<rparr>) m' (([] @ [(b + 2 ^ s, s)]) @ ins')"
    "\<forall>e \<in> set ins'. unat (b + 2 ^ s + 2 ^ s) \<le> unat (fst e)
         \<and> unat (fst e) < unat (b + 2 ^ s + 2 ^ s) + unat ?cz"
    using bshrink_loop_full[OF p1 p2 p3 p4 inv1 p6 p7] by blast
  let ?h' = "?h3\<lparr>b_ah := ah'\<rparr>"
  let ?ins = "(b + 2 ^ s, s) # ins'"
  have e2: "unat b + 2 ^ (s + 1) + (2 ^ c - 2 ^ (s + 1)) = unat b + 2 ^ c" using sc by simp
  have run: "bshrink h m b c s = Some (?h', m', ?ins)"
    using r(1) by (simp add: bshrink_def Let_def push_bit_1_u32 bi)
  have rule: "map (\<lambda>(a, k). (unat a, k)) ?ins
               = (unat b + 2 ^ s, s) # spec_release (unat b + 2 ^ (s + 1)) (2 ^ c - 2 ^ (s + 1))"
    using r(3) unfolding ub2 ucz by (simp add: ub1)
  have til: "tiles (unat b + 2 ^ s) ?ins (unat b + 2 ^ c)"
  proof -
    have e1: "unat b + 2 ^ s + 2 ^ s = unat b + 2 ^ (s + 1)" by simp
    have "tiles (unat b + 2 ^ (s + 1)) ins' (unat b + 2 ^ c)"
      using r(2) unfolding ub2 ucz e2 .
    then show ?thesis unfolding tiles.simps ub1 e1 by simp
  qed
  have inv: "avail_inv c ?h' m' ?ins" using r(4) by simp
  have bounds: "\<forall>e \<in> set ?ins. 0 < unat (fst e) \<and> unat (fst e) < unat (b_msize h)"
  proof
    fix e assume e: "e \<in> set ?ins"
    show "0 < unat (fst e) \<and> unat (fst e) < unat (b_msize h)"
    proof (cases "e = (b + 2 ^ s, s)")
      case True
      have "0 < unat b + 2 ^ s \<and> unat b + 2 ^ s < unat (b_msize h)"
        using ps sc2 assms(4) by linarith
      then show ?thesis using True ub1 by simp
    next
      case False
      then have "e \<in> set ins'" using e by simp
      then have "unat b + 2 ^ (s + 1) \<le> unat (fst e)" "unat (fst e) < unat b + 2 ^ c"
        using r(5) unfolding ub2 ucz e2 by blast+
      moreover have "(0 :: nat) < 2 ^ (s + 1)" by simp
      ultimately show ?thesis using assms(4) by linarith
    qed
  qed
  have al: "\<forall>e \<in> set ?ins. 8 dvd unat (fst e)" using inv by (simp add: avail_inv_def)
  have mh: "b_mh ?h' = b_mh h" "b_msize ?h' = b_msize h" by (simp_all add: f2)
  have nz: "\<forall>e \<in> set ?ins. block2ptr ?h' (fst e) \<noteq> 0"
  proof
    fix e assume e: "e \<in> set ?ins"
    show "block2ptr ?h' (fst e) \<noteq> 0"
      using al bounds e assms(7) by (intro block2ptr_nonzero) (simp_all only: mh)
  qed
  have isin: "\<forall>(a, k) \<in> set ?ins. bisin ?h' m' a k = Some True"
    using bisin_chain[OF inv _ nz] by blast
  have "of_nat s \<le> (63 :: u8)"
  proof -
    have "unat (of_nat s :: u8) = s" using s32(1) by (simp add: unat_of_nat)
    then show ?thesis using s32(1) by (simp add: word_le_nat_alt)
  qed
  then have gs: "getsize ?h' ?i = of_nat s"
    unfolding getsize_ah
    by (intro getsize_putsize_same block2size_less getsize_erasesize_same)
  show ?thesis
    by (rule exI[of _ ?h'], rule exI[of _ m'], rule exI[of _ ?ins]) (intro conjI run rule til isin gs mh(1))
qed

text \<open>
  The arena of the smoke test after \<^verbatim>\<open>buddy_init\<close> and \<^verbatim>\<open>buddy_get_block(&h, 100)\<close>:
  the block at \<open>mh\<close> has class 7, the lists below 7 are empty.
\<close>

lemma smoke_get100:
  "\<exists>h m h1 m1. buddy_init smoke_buddy zero_mem = Some (0, h, m)
     \<and> buddy_get_block h m 100 = Some (0x100000, h1, m1)
     \<and> b_mh h1 = 0x100000 \<and> b_hs h1 = 2097152 \<and> b_eh h1 = 0x200000 \<and> b_msize h1 = 1048576
     \<and> getsize h1 0 = 7 \<and> (\<forall>j. j < 7 \<longrightarrow> b_ah h1 j = NOBLOCK)"
proof -
  have a: "b_mh smoke_buddy \<noteq> 0" "b_e smoke_buddy = 0" "b_hs smoke_buddy = 2 ^ (20 + 1)"
      "(5 :: nat) \<le> 20" "(20 :: nat) \<le> 31" "unat (b_mh smoke_buddy) + 2 ^ (20 + 1) \<le> 2 ^ 64"
    by (simp_all add: smoke_buddy_def)
  obtain h m where i: "buddy_init smoke_buddy zero_mem = Some (0, h, m)"
      and f: "b_mh h = b_mh smoke_buddy" "b_hs h = b_hs smoke_buddy"
      "b_eh h = b_mh smoke_buddy + ucast ((2 :: u32) ^ 20)"
      "b_msize h = 2 ^ 20" "b_AMAX h = 20" "\<forall>i. i < 20 \<longrightarrow> b_ah h i = NOBLOCK" "b_ah h 20 = 0"
      "bl_nxt m (b_mh smoke_buddy) = NOBLOCK" "getsize h 0 = 0"
    using buddy_init_fresh[OF a, of zero_mem] by blast
  have n: "bl_nxt m (b_mh h) = NOBLOCK" using f(8) f(1) by simp
  have sz: "0 < unat (100 :: u64)" "unat (100 :: u64) \<le> 2 ^ (20 - 1)" by simp_all
  have a4: "(4 :: nat) \<le> 20" by simp
  obtain k ah' m1 where k: "3 \<le> k" "k < 20" "buddy_effsize 100 = 2 ^ k"
      and g: "buddy_get_block h m 100 = Some (b_mh h, putsize (h\<lparr>b_ah := ah'\<rparr>) 0 (of_nat k), m1)"
      and u: "\<forall>j. j < k \<longrightarrow> ah' j = NOBLOCK"
    using buddy_get_block_fresh[OF sz a4 a(5) f(5,4,6,7) n f(9)] by blast
  have "buddy_effsize 100 = 2 ^ 7" by (simp add: buddy_effsize_def nextpow2_def Let_def)
  then have "unat ((2 :: u32) ^ k) = unat ((2 :: u32) ^ 7)" using k(3) by simp
  then have "(2 :: nat) ^ k = 2 ^ 7" using k(2) by (simp add: unat_2p32)
  then have k7: "k = 7" using power_inject_exp[of "2 :: nat" k 7] by simp
  let ?h1 = "putsize (h\<lparr>b_ah := ah'\<rparr>) 0 7"
  have g7: "buddy_get_block h m 100 = Some (0x100000, ?h1, m1)"
    using g f(1) unfolding k7 by (simp add: smoke_buddy_def)
  have gs: "getsize ?h1 0 = 7"
    using f(9) by (intro getsize_putsize_same) (simp_all add: getsize_ah)
  have fl: "b_mh ?h1 = 0x100000" "b_hs ?h1 = 2097152" "b_eh ?h1 = 0x200000" "b_msize ?h1 = 1048576"
    using f(1-4) by (simp_all add: putsize_mh putsize_fields putsize_def Let_def smoke_buddy_def)
  have ah: "\<forall>j. j < 7 \<longrightarrow> b_ah ?h1 j = NOBLOCK" using u k7 by (simp add: putsize_fields)
  show ?thesis
    by (rule exI[of _ h], rule exI[of _ m], rule exI[of _ ?h1], rule exI[of _ m1])
       (intro conjI i g7 fl gs ah)
qed

lemma spec_release_16_112: "spec_release 16 112 = [(16, 5), (48, 5), (80, 4), (96, 5)]"
  by code_simp

lemma spec_release_8_120:
  "spec_release 8 120 = [(8, 5), (40, 5), (72, 4), (88, 4), (104, 3), (112, 4)]"
  by code_simp

lemma map_unat_mem:
  assumes "map (\<lambda>(a, k). (unat a, k)) ins = L" and "(n, k) \<in> set L"
  shows "(of_nat n, k) \<in> set ins"
proof -
  have "(n, k) \<in> (\<lambda>(a, k). (unat a, k)) ` set ins" using assms by (metis set_map)
  then obtain a where "(a, k) \<in> set ins" "unat a = n" by auto
  then show ?thesis by auto
qed

text \<open>
  Claim C8, as amended.  Let \<open>b\<close> be a block of class \<open>c \<le> 31\<close> in the main heap, at a
  multiple of 8 (what \<^verbatim>\<open>extendblock\<close> tests before it calls \<^verbatim>\<open>bshrink\<close>), in a heap
  whose avail lists of the classes below \<open>c\<close> are empty or begin in the main heap at
  a multiple of 8 (what the \<^verbatim>\<open>assert\<close>s of \<^verbatim>\<open>binsert\<close> and \<^verbatim>\<open>bremove\<close> and the block
  addresses maintain) and whose main heap does not wrap around the address space,
  and let \<open>MINSIZE = 2 ^ 3 \<le> 2 ^ s < 2 ^ c\<close>.  Then \<^verbatim>\<open>bshrink\<close> returns.  The blocks it
  passes to \<^verbatim>\<open>binsert\<close>, in this order, are first the block \<open>b + 2 ^ s\<close> of class \<open>s\<close>,
  which is not chosen by the rule, and then the blocks that the rule of the
  specification (\<open>m = next_pow2(cz)\<close>, \<open>m >> 2\<close> when \<open>m \<noteq> cz\<close>, list \<open>log2 m\<close>) releases
  from \<open>b + 2 ^ (s + 1)\<close> with the remainder \<open>2 ^ c - 2 ^ (s + 1)\<close>.  They tile the tail
  \<open>[b + 2 ^ s, b + 2 ^ c)\<close>, so the remainder ends at 0; in the resulting heap each
  of them is found in the avail list of its class by \<^verbatim>\<open>bisin\<close>, and the size entry
  of \<open>b\<close> is \<open>s\<close>.
\<close>

theorem bshrink_tiles_tail:
  assumes "3 \<le> s" and "s < c" and "c \<le> 31" and "unat b + 2 ^ c \<le> unat (b_msize h)"
    and "modpow2 b MINSIZE = 0"
    and "\<forall>k. k < c \<longrightarrow>
           b_ah h k = NOBLOCK \<or> (modpow2 (b_ah h k) MINSIZE = 0 \<and> b_ah h k < b_msize h)"
    and "unat (b_mh h) + unat (b_msize h) \<le> 2 ^ 64"
  shows "\<exists>h' m' ins. bshrink h m b c s = Some (h', m', ins)
           \<and> map (\<lambda>(a, k). (unat a, k)) ins
               = (unat b + 2 ^ s, s) # spec_release (unat b + 2 ^ (s + 1)) (2 ^ c - 2 ^ (s + 1))
           \<and> tiles (unat b + 2 ^ s) ins (unat b + 2 ^ c)
           \<and> (\<forall>(a, k) \<in> set ins. bisin h' m' a k = Some True)
           \<and> getsize h' (block2size b) = of_nat s"
  using bshrink_result[OF assms, of m]
  apply (elim exE conjE)
  subgoal for h' m' ins
    by (rule exI[of _ h'], rule exI[of _ m'], rule exI[of _ ins]) (intro conjI; assumption)
  done

theorem bshrink_tiles_tail_witness:
  "\<exists>h m p h1 m1. buddy_init smoke_buddy zero_mem = Some (0, h, m)
      \<and> buddy_get_block h m 100 = Some (p, h1, m1)
      \<and> (3 :: nat) \<le> 3 \<and> (3 :: nat) < 7 \<and> (7 :: nat) \<le> 31
      \<and> unat (0 :: u32) + 2 ^ 7 \<le> unat (b_msize h1)
      \<and> modpow2 0 MINSIZE = 0
      \<and> (\<forall>k. k \<ge> 7 \<or> b_ah h1 k = NOBLOCK)
      \<and> unat (b_mh h1) + unat (b_msize h1) \<le> 2 ^ 64
      \<and> (\<exists>h' m' ins. bshrink h1 m1 0 7 3 = Some (h', m', ins)
            \<and> map (\<lambda>(a, k). (unat a, k)) ins = [(8, 3), (16, 5), (48, 5), (80, 4), (96, 5)]
            \<and> tiles 8 ins 128
            \<and> bisin h' m' 8 3 = Some True \<and> bisin h' m' 16 5 = Some True
            \<and> bisin h' m' 48 5 = Some True \<and> bisin h' m' 80 4 = Some True
            \<and> bisin h' m' 96 5 = Some True
            \<and> getsize h' (block2size 0) = 3)"
proof -
  obtain h m h1 m1 where i: "buddy_init smoke_buddy zero_mem = Some (0, h, m)"
      and g: "buddy_get_block h m 100 = Some (0x100000, h1, m1)"
      and mh: "b_mh h1 = 0x100000" and ms: "b_msize h1 = 1048576"
      and hd: "\<forall>j. j < 7 \<longrightarrow> b_ah h1 j = NOBLOCK"
    using smoke_get100 by blast
  have a: "(3 :: nat) \<le> 3" "(3 :: nat) < 7" "(7 :: nat) \<le> 31"
      "unat (0 :: u32) + 2 ^ 7 \<le> unat (b_msize h1)"
      "modpow2 0 MINSIZE = 0"
      "\<forall>k. k \<ge> 7 \<or> b_ah h1 k = NOBLOCK"
      "unat (b_mh h1) + unat (b_msize h1) \<le> 2 ^ 64"
    unfolding ms mh using hd by (simp_all add: modpow2_def) (metis not_le)
  have a6: "\<forall>k. k < 7 \<longrightarrow>
           b_ah h1 k = NOBLOCK \<or> (modpow2 (b_ah h1 k) MINSIZE = 0 \<and> b_ah h1 k < b_msize h1)"
    using hd by blast
  from bshrink_tiles_tail[OF a(1-5) a6 a(7), of m1]
  obtain h' m' ins where r: "bshrink h1 m1 0 7 3 = Some (h', m', ins)"
      and rule: "map (\<lambda>(a, k). (unat a, k)) ins = [(8, 3), (16, 5), (48, 5), (80, 4), (96, 5)]"
      and til: "tiles 8 ins 128"
      and isin: "\<forall>(a, k) \<in> set ins. bisin h' m' a k = Some True"
      and gs: "getsize h' (block2size 0) = 3"
    by (auto simp: spec_release_16_112)
  have "bisin h' m' (of_nat 8) 3 = Some True" "bisin h' m' (of_nat 16) 5 = Some True"
       "bisin h' m' (of_nat 48) 5 = Some True" "bisin h' m' (of_nat 80) 4 = Some True"
       "bisin h' m' (of_nat 96) 5 = Some True"
    using isin map_unat_mem[OF rule] by fastforce+
  then have b: "bisin h' m' 8 3 = Some True" "bisin h' m' 16 5 = Some True"
       "bisin h' m' 48 5 = Some True" "bisin h' m' 80 4 = Some True" "bisin h' m' 96 5 = Some True"
    by simp_all
  have inner: "\<exists>h' m' ins. bshrink h1 m1 0 7 3 = Some (h', m', ins)
            \<and> map (\<lambda>(a, k). (unat a, k)) ins = [(8, 3), (16, 5), (48, 5), (80, 4), (96, 5)]
            \<and> tiles 8 ins 128
            \<and> bisin h' m' 8 3 = Some True \<and> bisin h' m' 16 5 = Some True
            \<and> bisin h' m' 48 5 = Some True \<and> bisin h' m' 80 4 = Some True
            \<and> bisin h' m' 96 5 = Some True
            \<and> getsize h' (block2size 0) = 3"
    by (rule exI[of _ h'], rule exI[of _ m'], rule exI[of _ ins]) (intro conjI r rule til b gs)
  show ?thesis
    by (rule exI[of _ h], rule exI[of _ m], rule exI[of _ "0x100000"], rule exI[of _ h1],
        rule exI[of _ m1]) (intro conjI i g a inner)
qed

text \<open>
  The claim as it was stated fails.  On the arena of the smoke test, \<open>p = get(100)\<close>
  is a block of class 7 at \<open>mh\<close>, and \<^verbatim>\<open>buddy_extend_block(&h, p, 8, &rc)\<close> shrinks it
  to class 3 with \<^verbatim>\<open>bshrink(h, 0, 7, 3)\<close>.  The tail is \<open>[8, 128)\<close>.  The first block
  that \<^verbatim>\<open>bshrink\<close> inserts is the block at 8 of class 3, by the \<^verbatim>\<open>binsert(h, b, s)\<close>
  before the loop, and \<^verbatim>\<open>bisin\<close> finds it in list 3 afterwards.  The rule, applied
  to the tail from its beginning with the remainder 120, chooses
  \<open>m = 128 >> 2 = 32\<close> and puts the block at 8 into list 5.  Both sequences tile
  the tail.
\<close>

theorem bshrink_first_block_not_by_rule:
  "\<exists>h m p h1 m1 h2 m2 ins.
      buddy_init smoke_buddy zero_mem = Some (0, h, m)
    \<and> buddy_get_block h m 100 = Some (p, h1, m1)
    \<and> getsize h1 (block2size (ptr2block h1 p)) = 7
    \<and> buddy_extend_block h1 m1 p 8 = Some (p, 0, h2, m2)
    \<and> bshrink h1 m1 (ptr2block h1 p) 7 3 = Some (h2, m2, ins)
    \<and> map (\<lambda>(a, k). (unat a, k)) ins = [(8, 3), (16, 5), (48, 5), (80, 4), (96, 5)]
    \<and> bisin h2 m2 8 3 = Some True
    \<and> spec_release 8 120 = [(8, 5), (40, 5), (72, 4), (88, 4), (104, 3), (112, 4)]"
proof -
  obtain h m h1 m1 where i: "buddy_init smoke_buddy zero_mem = Some (0, h, m)"
      and g: "buddy_get_block h m 100 = Some (0x100000, h1, m1)"
      and f: "b_mh h1 = 0x100000" "b_hs h1 = 2097152" "b_eh h1 = 0x200000" "b_msize h1 = 1048576"
      and gs: "getsize h1 0 = 7"
      and hd: "\<forall>j. j < 7 \<longrightarrow> b_ah h1 j = NOBLOCK"
    using smoke_get100 by blast
  have pb: "ptr2block h1 0x100000 = 0" by (simp add: ptr2block_def f)
  have a: "(3 :: nat) \<le> 3" "(3 :: nat) < 7" "(7 :: nat) \<le> 31"
      "unat (0 :: u32) + 2 ^ 7 \<le> unat (b_msize h1)"
      "modpow2 0 MINSIZE = 0"
      "\<forall>k. k < 7 \<longrightarrow>
           b_ah h1 k = NOBLOCK \<or> (modpow2 (b_ah h1 k) MINSIZE = 0 \<and> b_ah h1 k < b_msize h1)"
      "unat (b_mh h1) + unat (b_msize h1) \<le> 2 ^ 64"
    unfolding f using hd by (auto simp: modpow2_def)
  from bshrink_result[OF a, of m1]
  obtain h2 m2 ins where r: "bshrink h1 m1 0 7 3 = Some (h2, m2, ins)"
      and rule: "map (\<lambda>(a, k). (unat a, k)) ins = [(8, 3), (16, 5), (48, 5), (80, 4), (96, 5)]"
      and isin: "\<forall>(a, k) \<in> set ins. bisin h2 m2 a k = Some True"
      and mh2: "b_mh h2 = b_mh h1"
    by (auto simp: spec_release_16_112)
  have "bisin h2 m2 (of_nat 8) 3 = Some True"
    using isin map_unat_mem[OF rule] by fastforce
  then have b8: "bisin h2 m2 8 3 = Some True" by simp
  have e8: "(8 :: u32) = 2 ^ 3" by simp
  have l8: "buddy_log2 8 = 3" unfolding e8 by (rule buddy_log2_pow2) simp
  have es: "buddy_effsize 8 = 8" by (simp add: buddy_effsize_def nextpow2_def Let_def MINSIZE_def)
  have eb: "extendblock h1 m1 0 8 OK = Some (0, OK, h2, m2)"
    by (simp add: extendblock_def Let_def modpow2_def block2size_0 gs l8 r)
  have ex: "buddy_extend_block h1 m1 0x100000 8 = Some (0x100000, 0, h2, m2)"
    by (simp add: buddy_extend_block_def Let_def f es pb eb[unfolded OK_def] OK_def block2ptr_0 mh2)
  show ?thesis
    by (rule exI[of _ h], rule exI[of _ m], rule exI[of _ "0x100000"], rule exI[of _ h1],
        rule exI[of _ m1], rule exI[of _ h2], rule exI[of _ m2], rule exI[of _ ins])
       (simp add: i g pb block2size_0 gs ex r rule b8 spec_release_8_120)
qed

end
